theory Spec2Isabelle
  imports Main "HOL-Library.AList" "HOL-Library.Multiset"
begin

section \<open>The forward scheduler of \<^verbatim>\<open>src/src/services/schedulerService.ts\<close>\<close>

text \<open>
  The development embeds \<^verbatim>\<open>scheduleProject\<close> and its two date helpers.

  Conventions of the embedding:
  \<^item> A date string \<^verbatim>\<open>YYYY-MM-DD\<close> is the number of its day since 1970-01-01 (an \<open>int\<close>):
    \<^verbatim>\<open>new Date(s)\<close> on a date-only string is midnight UTC of that day, and the comparison
    of two such dates is the comparison of the day numbers.
  \<^item> A \<^verbatim>\<open>duration\<close> is an integer number of days.
  \<^item> \<^verbatim>\<open>new Date()\<close> (line 64) reads the clock; the UTC day it returns is the parameter
    \<open>today\<close>.
  \<^item> \<^verbatim>\<open>getDate\<close> and \<^verbatim>\<open>setDate\<close> (line 16) work in the local time of the host. The time
    zone of the host is the parameter \<open>z\<close>: the offset of local time from UTC in
    milliseconds, as a function of the time (ECMAScript's \<^verbatim>\<open>LocalTZA\<close>).
  \<^item> \<^verbatim>\<open>toISOString\<close> on a time value outside the range of \<^verbatim>\<open>Date\<close> throws; this is the
    error \<open>RangeError\<close>.
  \<^item> The declarations of \<^verbatim>\<open>Task\<close>, \<^verbatim>\<open>User\<close> and \<^verbatim>\<open>Project\<close> (\<^verbatim>\<open>../types\<close>) are not part of the
    sources at hand; the records below carry the fields the scheduler reads. The field
    \<^verbatim>\<open>id\<close> is \<open>t_id\<close>, \<open>u_id\<close>, \<open>p_id\<close> (the name \<open>id\<close> is HOL's identity), and the
    project's \<^verbatim>\<open>startDate\<close> is \<open>p_startDate\<close>.
  \<^item> An optional string (\<^verbatim>\<open>assignedTo\<close>, \<^verbatim>\<open>requiredSpecialty\<close>) is a \<open>string option\<close>;
    JavaScript's truthiness test on it is \<open>truthy\<close>: \<^verbatim>\<open>undefined\<close> and the empty string
    are falsy.
  \<^item> Objects live in a store: \<open>heap\<close> is the table of task objects and a reference is an
    index into it. The caller's task objects occupy the first cells; the spread
    \<^verbatim>\<open>{ ...t }\<close> allocates a new cell. \<^verbatim>\<open>taskMap\<close> and \<^verbatim>\<open>optimizedTasks\<close> hold references.
  \<^item> A property read on \<^verbatim>\<open>undefined\<close> (behind the non-null assertion \<^verbatim>\<open>!\<close>) is the error
    \<open>TypeError\<close>; arithmetic or a comparator on a value asserted with \<^verbatim>\<open>!\<close> that is
    \<^verbatim>\<open>undefined\<close> is the error \<open>UndefinedOperand\<close> (JavaScript would go on with \<^verbatim>\<open>NaN\<close>).
\<close>

subsection \<open>Data model\<close>

datatype priority = Critica | Alta | Media | Baja

type_synonym date = int

type_synonym ref = nat

record task =
  t_id :: string
  projectId :: string
  name :: string
  dependencies :: "string list"
  startDate :: date
  duration :: int
  assignedTo :: "string option"
  requiredSpecialty :: "string option"
  priority :: priority

record user =
  u_id :: string
  specialties :: "string list"
  role :: string

record project =
  p_id :: string
  p_startDate :: date

datatype error = TypeError | UndefinedOperand | RangeError

text \<open>
  The time zone of the host. \<open>utcOffset z t\<close> is the offset in force at the UTC time \<open>t\<close>
  (\<^verbatim>\<open>LocalTZA(t, true)\<close>), \<open>localOffset z t\<close> the offset by which the local time \<open>t\<close> is
  read (\<^verbatim>\<open>LocalTZA(t, false)\<close>); times and offsets are in milliseconds.
\<close>

record zone =
  utcOffset :: "int \<Rightarrow> int"
  localOffset :: "int \<Rightarrow> int"

record ScheduleResult =
  optimizedTasks :: "task list"
  conflicts :: "string list"
  utilization :: "(string \<times> int) list"

text \<open>The local variables of \<^verbatim>\<open>scheduleProject\<close>, with the object store.\<close>

record state =
  heap :: "task list"
  taskMap :: "string \<rightharpoonup> ref"
  outgoingEdges :: "string \<rightharpoonup> string list"
  incomingDegree :: "(string \<times> int) list"
  userAvailability :: "string \<rightharpoonup> date"
  queue :: "string list"
  optimizedRefs :: "ref list"
  conflictLog :: "string list"

subsection \<open>Helpers\<close>

definition msPerDay :: int where
  "msPerDay = 86400000"

text \<open>\<^verbatim>\<open>TimeClip\<close>: a time value is within 8.64e15 milliseconds of the epoch.\<close>

definition maxTime :: int where
  "maxTime = 8640000000000000"

text \<open>
  Lines 14 to 18. \<^verbatim>\<open>new Date(dateStr)\<close> is midnight UTC of the day (an invalid date when
  that is out of range). \<^verbatim>\<open>getDate\<close> reads the day of the month of the local time and
  \<^verbatim>\<open>setDate(getDate() + days)\<close> sets it, keeping month, year and time of day: the local
  time moves by \<open>days\<close> whole days and is read back as a UTC time by the offset of the
  zone at the new local time. \<^verbatim>\<open>toISOString\<close> throws on a time out of range and gives the
  UTC day otherwise.
\<close>

definition addDays :: "zone \<Rightarrow> date \<Rightarrow> int \<Rightarrow> error + date" where
  "addDays z dateStr days =
     (let t = dateStr * msPerDay
      in if \<bar>t\<bar> > maxTime then Inl RangeError
         else
           (let localTime = t + utcOffset z t;
                newDate = localTime + days * msPerDay;
                u = newDate - localOffset z newDate
            in if \<bar>u\<bar> > maxTime then Inl RangeError else Inr (u div msPerDay)))"

definition maxDate :: "date \<Rightarrow> date \<Rightarrow> date" where
  "maxDate d1 d2 = (if d1 > d2 then d1 else d2)"

fun truthy :: "string option \<Rightarrow> bool" where
  "truthy None = False"
| "truthy (Some s) = (s \<noteq> [])"

fun priorityWeight :: "priority \<Rightarrow> int" where
  "priorityWeight Critica = 4"
| "priorityWeight Alta = 3"
| "priorityWeight Media = 2"
| "priorityWeight Baja = 1"

text \<open>\<^verbatim>\<open>incomingDegree.get(id) || 0\<close>\<close>

definition degreeOr0 :: "(string \<times> int) list \<Rightarrow> string \<Rightarrow> int" where
  "degreeOr0 deg k = (case map_of deg k of None \<Rightarrow> 0 | Some d \<Rightarrow> d)"

subsection \<open>Step 1: clones, successor lists, in-degrees (lines 39-58)\<close>

text \<open>First \<^verbatim>\<open>forEach\<close>: one fresh cell per task, holding a copy of its fields.\<close>

fun cloneTasks :: "task list \<Rightarrow> state \<Rightarrow> state" where
  "cloneTasks [] s = s"
| "cloneTasks (t # ts) s =
     cloneTasks ts
       (s\<lparr>heap := heap s @ [t],
          taskMap := (taskMap s)(t_id t \<mapsto> length (heap s)),
          incomingDegree := AList.update (t_id t) 0 (incomingDegree s),
          outgoingEdges := (outgoingEdges s)(t_id t \<mapsto> [])\<rparr>)"

text \<open>Second \<^verbatim>\<open>forEach\<close>, inner loop over \<^verbatim>\<open>t.dependencies\<close>.\<close>

fun addDependencies :: "string \<Rightarrow> string list \<Rightarrow> state \<Rightarrow> state" where
  "addDependencies tid [] s = s"
| "addDependencies tid (depId # ds) s =
     addDependencies tid ds
       (if taskMap s depId \<noteq> None then
          s\<lparr>outgoingEdges :=
               (case outgoingEdges s depId of
                  None \<Rightarrow> outgoingEdges s
                | Some l \<Rightarrow> (outgoingEdges s)(depId \<mapsto> l @ [tid])),
            incomingDegree :=
               AList.update tid (degreeOr0 (incomingDegree s) tid + 1) (incomingDegree s)\<rparr>
        else s)"

fun addEdges :: "task list \<Rightarrow> state \<Rightarrow> state" where
  "addEdges [] s = s"
| "addEdges (t # ts) s = addEdges ts (addDependencies (t_id t) (dependencies t) s)"

subsection \<open>Step 2: availability (lines 61-73)\<close>

fun seedUsers :: "date \<Rightarrow> user list \<Rightarrow> (string \<rightharpoonup> date) \<Rightarrow> (string \<rightharpoonup> date)" where
  "seedUsers today [] ua = ua"
| "seedUsers today (u # us) ua = seedUsers today us (ua(u_id u \<mapsto> today))"

fun levelResources ::
  "zone \<Rightarrow> project \<Rightarrow> task list \<Rightarrow> (string \<rightharpoonup> date) \<Rightarrow> error + (string \<rightharpoonup> date)" where
  "levelResources z project [] ua = Inr ua"
| "levelResources z project (t # ts) ua =
     (case assignedTo t of
        None \<Rightarrow> levelResources z project ts ua
      | Some a \<Rightarrow>
          if projectId t \<noteq> p_id project \<and> a \<noteq> [] \<and> ua a \<noteq> None then
            (let currentAvail = the (ua a)
             in case addDays z (startDate t) (duration t) of
                  Inl e \<Rightarrow> Inl e
                | Inr taskEnd \<Rightarrow>
                    levelResources z project ts (ua(a \<mapsto> maxDate currentAvail taskEnd)))
          else levelResources z project ts ua)"

subsection \<open>Step 3: the ready queue and its sort (lines 76-86, 171)\<close>

text \<open>
  The comparator reads \<^verbatim>\<open>taskMap.get(x)!.priority\<close> for the ids it compares. The sort of
  \<^verbatim>\<open>Array.prototype.sort\<close> is stable; descending weight is ascending negated weight.
\<close>

definition queueWeight :: "state \<Rightarrow> string \<Rightarrow> int option" where
  "queueWeight s k =
     (case taskMap s k of None \<Rightarrow> None | Some r \<Rightarrow> Some (priorityWeight (priority (heap s ! r))))"

definition sortQueue :: "state \<Rightarrow> string list \<Rightarrow> error + string list" where
  "sortQueue s q =
     (if \<forall>k \<in> set q. queueWeight s k \<noteq> None
      then Inr (sort_key (\<lambda>k. - the (queueWeight s k)) q)
      else Inl TypeError)"

definition initialQueue :: "task list \<Rightarrow> state \<Rightarrow> string list" where
  "initialQueue projectTasks s =
     map t_id (filter (\<lambda>t. degreeOr0 (incomingDegree s) (t_id t) = 0) projectTasks)"

subsection \<open>Step 4: the body of the loop (lines 93-173)\<close>

text \<open>A. The dependency floor, folded over \<^verbatim>\<open>task.dependencies\<close>.\<close>

fun earliestStart :: "zone \<Rightarrow> state \<Rightarrow> date \<Rightarrow> string list \<Rightarrow> error + date" where
  "earliestStart z s d [] = Inr d"
| "earliestStart z s d (depId # ds) =
     (case taskMap s depId of
        None \<Rightarrow> earliestStart z s d ds
      | Some r \<Rightarrow>
          (case addDays z (startDate (heap s ! r)) (duration (heap s ! r)) of
             Inl e \<Rightarrow> Inl e
           | Inr depEnd \<Rightarrow> earliestStart z s (maxDate d depEnd) ds))"

text \<open>B. Candidates and the choice of \<^verbatim>\<open>bestUser\<close>.\<close>

definition satisfies :: "string \<Rightarrow> user \<Rightarrow> bool" where
  "satisfies specialtyNeeded u = (specialtyNeeded \<in> set (specialties u) \<or> role u = specialtyNeeded)"

definition sortCandidates :: "(string \<rightharpoonup> date) \<Rightarrow> user list \<Rightarrow> error + user list" where
  "sortCandidates ua cs =
     (if \<forall>u \<in> set cs. ua (u_id u) \<noteq> None
      then Inr (sort_key (\<lambda>u. the (ua (u_id u))) cs)
      else Inl UndefinedOperand)"

definition conflictMessage :: "string \<Rightarrow> string \<Rightarrow> string" where
  "conflictMessage specialtyNeeded taskName =
     ''Falta perfil: '' @ specialtyNeeded @ '' para tarea '' @ [CHR 0x22] @ taskName @ [CHR 0x22]"

text \<open>
  \<^verbatim>\<open>currentIsCapable && new Date(userAvailability.get(assignedUser)!) <= new Date(floor)\<close>:
  with no availability entry the comparison is on an invalid date and is false.
\<close>

definition keepCurrent :: "(string \<rightharpoonup> date) \<Rightarrow> date \<Rightarrow> user list \<Rightarrow> string option \<Rightarrow> bool" where
  "keepCurrent ua dependencyEarliestStart candidates assignedUser =
     (case assignedUser of
        None \<Rightarrow> False
      | Some a \<Rightarrow>
          (\<exists>c \<in> set candidates. u_id c = a) \<and>
          (case ua a of None \<Rightarrow> False | Some avail \<Rightarrow> avail \<le> dependencyEarliestStart))"

text \<open>The result is \<^verbatim>\<open>bestUser\<close> and the conflict strings pushed (none or one).\<close>

definition chooseUser ::
  "user list \<Rightarrow> (string \<rightharpoonup> date) \<Rightarrow> date \<Rightarrow> task \<Rightarrow> error + (string option \<times> string list)" where
  "chooseUser allUsers ua dependencyEarliestStart task =
     (case requiredSpecialty task of
        None \<Rightarrow> Inr (assignedTo task, [])
      | Some specialtyNeeded \<Rightarrow>
          if specialtyNeeded = [] then Inr (assignedTo task, [])
          else
            (case filter (satisfies specialtyNeeded) allUsers of
               [] \<Rightarrow> Inr (assignedTo task, [conflictMessage specialtyNeeded (name task)])
             | c # cs \<Rightarrow>
                 (case sortCandidates ua (c # cs) of
                    Inl e \<Rightarrow> Inl e
                  | Inr candidates \<Rightarrow>
                      if keepCurrent ua dependencyEarliestStart candidates (assignedTo task)
                      then Inr (assignedTo task, [])
                      else Inr (Some (u_id (hd candidates)), []))))"

text \<open>C, D. The final start date, the booking of the user and the writes on the task.\<close>

definition commitTask ::
  "zone \<Rightarrow> project \<Rightarrow> (string \<rightharpoonup> date) \<Rightarrow> date \<Rightarrow> string option \<Rightarrow> task \<Rightarrow>
   error + task \<times> (string \<rightharpoonup> date)" where
  "commitTask z project ua dependencyEarliestStart bestUser task =
     (case bestUser of
        None \<Rightarrow> Inr (task\<lparr>startDate := dependencyEarliestStart\<rparr>, ua)
      | Some b \<Rightarrow>
          if b = [] then Inr (task\<lparr>startDate := dependencyEarliestStart\<rparr>, ua)
          else
            (let userNextFree = (case ua b of None \<Rightarrow> p_startDate project | Some d \<Rightarrow> d);
                 actualStartDate = maxDate dependencyEarliestStart userNextFree
             in case addDays z actualStartDate (duration task) of
                  Inl e \<Rightarrow> Inl e
                | Inr newEnd \<Rightarrow>
                    Inr (task\<lparr>assignedTo := Some b, startDate := actualStartDate\<rparr>,
                         ua(b \<mapsto> newEnd))))"

text \<open>F. The release of the successors: decrement, push at zero, sort again.\<close>

fun release :: "state \<Rightarrow> string list \<Rightarrow> error + state" where
  "release s [] = Inr s"
| "release s (neighborId # ns) =
     (case map_of (incomingDegree s) neighborId of
        None \<Rightarrow> Inl UndefinedOperand
      | Some d \<Rightarrow>
          (let currentDegree = d - 1;
               s1 = s\<lparr>incomingDegree := AList.update neighborId currentDegree (incomingDegree s)\<rparr>
           in if currentDegree = 0 then
                (case sortQueue s1 (queue s1 @ [neighborId]) of
                   Inl e \<Rightarrow> Inl e
                 | Inr q \<Rightarrow> release (s1\<lparr>queue := q\<rparr>) ns)
              else release s1 ns))"

text \<open>A to E for the task behind the reference \<open>r\<close>: floor, user, dates, output.\<close>

definition assignTask :: "zone \<Rightarrow> project \<Rightarrow> user list \<Rightarrow> state \<Rightarrow> ref \<Rightarrow> error + state" where
  "assignTask z project allUsers s r =
     (let task = heap s ! r
      in case earliestStart z s (p_startDate project) (dependencies task) of
           Inl e \<Rightarrow> Inl e
         | Inr dependencyEarliestStart \<Rightarrow>
             (case chooseUser allUsers (userAvailability s) dependencyEarliestStart task of
                Inl e \<Rightarrow> Inl e
              | Inr (bestUser, newConflicts) \<Rightarrow>
                  (case commitTask z project (userAvailability s) dependencyEarliestStart
                          bestUser task of
                     Inl e \<Rightarrow> Inl e
                   | Inr (task', ua') \<Rightarrow>
                       Inr (s\<lparr>heap := (heap s)[r := task'],
                                userAvailability := ua',
                                optimizedRefs := optimizedRefs s @ [r],
                                conflictLog := conflictLog s @ newConflicts\<rparr>))))"

text \<open>One iteration of \<^verbatim>\<open>while (queue.length > 0)\<close>.\<close>

definition step :: "zone \<Rightarrow> project \<Rightarrow> user list \<Rightarrow> state \<Rightarrow> error + state" where
  "step z project allUsers s =
     (case queue s of
        [] \<Rightarrow> Inr s
      | taskId # rest \<Rightarrow>
          (case taskMap s taskId of
             None \<Rightarrow> Inl TypeError
           | Some r \<Rightarrow>
               (case assignTask z project allUsers (s\<lparr>queue := rest\<rparr>) r of
                  Inl e \<Rightarrow> Inl e
                | Inr s1 \<Rightarrow>
                    (case outgoingEdges s1 taskId of
                       None \<Rightarrow> Inr s1
                     | Some neighbors \<Rightarrow> release s1 neighbors))))"

subsection \<open>The loop terminates\<close>

text \<open>
  Every iteration removes the head of the queue; a successor is pushed only when its
  counter moves from one to zero. The length of the queue plus the number of positive
  counters decreases.
\<close>

definition posDegrees :: "(string \<times> int) list \<Rightarrow> nat" where
  "posDegrees deg = length (filter (\<lambda>kv. snd kv > 0) deg)"

lemma posDegrees_update:
  "map_of deg k = Some d \<Longrightarrow>
   posDegrees (AList.update k (d - 1) deg) + (if d = 1 then 1 else 0) = posDegrees deg"
  unfolding posDegrees_def
  by (induction deg) (auto split: if_splits)

lemma sortQueue_length: "sortQueue s q = Inr q' \<Longrightarrow> length q' = length q"
  by (auto simp: sortQueue_def split: if_splits)

lemma release_measure:
  "release s ns = Inr s' \<Longrightarrow>
   length (queue s') + posDegrees (incomingDegree s')
     \<le> length (queue s) + posDegrees (incomingDegree s)"
proof (induction ns arbitrary: s)
  case Nil
  then show ?case by simp
next
  case (Cons n ns)
  from Cons.prems obtain d where d: "map_of (incomingDegree s) n = Some d"
    by (auto split: option.splits)
  let ?s1 = "s\<lparr>incomingDegree := AList.update n (d - 1) (incomingDegree s)\<rparr>"
  show ?case
  proof (cases "d - 1 = 0")
    case True
    with Cons.prems d obtain q where q: "sortQueue ?s1 (queue ?s1 @ [n]) = Inr q"
      and r: "release (?s1\<lparr>queue := q\<rparr>) ns = Inr s'"
      by (auto simp: Let_def split: sum.splits)
    from Cons.IH[OF r] sortQueue_length[OF q] posDegrees_update[OF d] True
    show ?thesis by simp
  next
    case False
    with Cons.prems d have r: "release ?s1 ns = Inr s'"
      by (auto simp: Let_def)
    from Cons.IH[OF r] posDegrees_update[OF d] False
    show ?thesis by simp
  qed
qed

lemma assignTask_measure:
  "assignTask z project allUsers s r = Inr s1 \<Longrightarrow>
   queue s1 = queue s \<and> incomingDegree s1 = incomingDegree s"
  unfolding assignTask_def
  by (auto simp: Let_def split: sum.splits prod.splits)

lemma step_measure:
  "queue s \<noteq> [] \<Longrightarrow> step z project allUsers s = Inr s' \<Longrightarrow>
   length (queue s') + posDegrees (incomingDegree s')
     < length (queue s) + posDegrees (incomingDegree s)"
  unfolding step_def
  by (auto split: list.splits option.splits sum.splits
      dest!: release_measure assignTask_measure)

function loop :: "zone \<Rightarrow> project \<Rightarrow> user list \<Rightarrow> state \<Rightarrow> error + state" where
  "loop z project allUsers s =
     (if queue s = [] then Inr s
      else case step z project allUsers s of
             Inl e \<Rightarrow> Inl e
           | Inr s' \<Rightarrow> loop z project allUsers s')"
  by pat_completeness auto
termination
  by (relation "measure (\<lambda>(z, project, allUsers, s).
                  length (queue s) + posDegrees (incomingDegree s))")
     (auto dest: step_measure)

declare loop.simps [simp del]

subsection \<open>\<^verbatim>\<open>scheduleProject\<close>\<close>

text \<open>
  The store at the call: the caller's task objects, \<^verbatim>\<open>projectTasks\<close> first and the tasks
  of the other projects after them; every map and list of the function is empty.
\<close>

definition initialState :: "task list \<Rightarrow> task list \<Rightarrow> state" where
  "initialState projectTasks existingGlobalTasks =
     \<lparr>heap = projectTasks @ existingGlobalTasks, taskMap = Map.empty,
      outgoingEdges = Map.empty, incomingDegree = [], userAvailability = Map.empty,
      queue = [], optimizedRefs = [], conflictLog = []\<rparr>"

text \<open>Lines 39 to 86: everything before the loop.\<close>

definition prepare ::
  "zone \<Rightarrow> date \<Rightarrow> project \<Rightarrow> task list \<Rightarrow> user list \<Rightarrow> task list \<Rightarrow> error + state" where
  "prepare z today project projectTasks allUsers existingGlobalTasks =
     (let s1 = addEdges projectTasks
                 (cloneTasks projectTasks (initialState projectTasks existingGlobalTasks))
      in case levelResources z project existingGlobalTasks
                (seedUsers today allUsers Map.empty) of
           Inl e \<Rightarrow> Inl e
         | Inr ua \<Rightarrow>
             (let s2 = s1\<lparr>userAvailability := ua\<rparr>
              in case sortQueue s2 (initialQueue projectTasks s2) of
                   Inl e \<Rightarrow> Inl e
                 | Inr q \<Rightarrow> Inr (s2\<lparr>queue := q\<rparr>)))"

text \<open>The state in which the function returns.\<close>

definition run ::
  "zone \<Rightarrow> date \<Rightarrow> project \<Rightarrow> task list \<Rightarrow> user list \<Rightarrow> task list \<Rightarrow> error + state" where
  "run z today project projectTasks allUsers existingGlobalTasks =
     (case prepare z today project projectTasks allUsers existingGlobalTasks of
        Inl e \<Rightarrow> Inl e
      | Inr s \<Rightarrow> loop z project allUsers s)"

text \<open>The returned object: the referenced clones as they are when the function returns.\<close>

definition resultOf :: "state \<Rightarrow> ScheduleResult" where
  "resultOf s =
     \<lparr>optimizedTasks = map (\<lambda>r. heap s ! r) (optimizedRefs s),
      conflicts = conflictLog s,
      utilization = []\<rparr>"

definition scheduleProject ::
  "zone \<Rightarrow> date \<Rightarrow> project \<Rightarrow> task list \<Rightarrow> user list \<Rightarrow> task list \<Rightarrow> error + ScheduleResult" where
  "scheduleProject z today project projectTasks allUsers existingGlobalTasks =
     (case run z today project projectTasks allUsers existingGlobalTasks of
        Inl e \<Rightarrow> Inl e
      | Inr s \<Rightarrow> Inr (resultOf s))"

section \<open>Reasoning about the loop\<close>

subsection \<open>The date arithmetic in two parts\<close>

text \<open>
  \<^verbatim>\<open>addDays\<close> returns the day \<open>endDay\<close> when the times it goes through are in the range of
  \<^verbatim>\<open>Date\<close>, and throws otherwise.
\<close>

definition endDay :: "zone \<Rightarrow> date \<Rightarrow> int \<Rightarrow> date" where
  "endDay z d n =
     (let newDate = d * msPerDay + utcOffset z (d * msPerDay) + n * msPerDay
      in (newDate - localOffset z newDate) div msPerDay)"

definition inRange :: "zone \<Rightarrow> date \<Rightarrow> int \<Rightarrow> bool" where
  "inRange z d n \<longleftrightarrow>
     \<bar>d * msPerDay\<bar> \<le> maxTime \<and>
     (let newDate = d * msPerDay + utcOffset z (d * msPerDay) + n * msPerDay
      in \<bar>newDate - localOffset z newDate\<bar> \<le> maxTime)"

lemma addDays_eq:
  "addDays z d n = (if inRange z d n then Inr (endDay z d n) else Inl RangeError)"
  by (auto simp: addDays_def endDay_def inRange_def Let_def)


text \<open>A host whose offset from UTC never changes; \<open>utc\<close> is the host at offset zero.\<close>

definition fixedZone :: "int \<Rightarrow> zone" where
  "fixedZone c = \<lparr>utcOffset = \<lambda>t. c, localOffset = \<lambda>t. c\<rparr>"

definition utc :: zone where
  "utc = fixedZone 0"

lemma endDay_fixed [simp]: "endDay (fixedZone c) d n = d + n"
proof -
  have "d * msPerDay + n * msPerDay = (d + n) * msPerDay" by (simp add: distrib_right)
  moreover have "(d + n) * msPerDay div msPerDay = d + n" by (simp add: msPerDay_def)
  ultimately show ?thesis by (simp add: endDay_def fixedZone_def)
qed

text \<open>The dependency floor, the writes of a task and the leveling, with the days that
  \<^verbatim>\<open>addDays\<close> returns; and the condition under which no \<^verbatim>\<open>addDays\<close> of theirs throws.\<close>

fun floorOf :: "zone \<Rightarrow> state \<Rightarrow> date \<Rightarrow> string list \<Rightarrow> date" where
  "floorOf z s d [] = d"
| "floorOf z s d (depId # ds) =
     floorOf z s
       (case taskMap s depId of
          None \<Rightarrow> d
        | Some r \<Rightarrow> maxDate d (endDay z (startDate (heap s ! r)) (duration (heap s ! r))))
       ds"

definition floorOK :: "zone \<Rightarrow> state \<Rightarrow> string list \<Rightarrow> bool" where
  "floorOK z s ds \<longleftrightarrow>
     (\<forall>depId \<in> set ds. \<forall>r. taskMap s depId = Some r \<longrightarrow>
        inRange z (startDate (heap s ! r)) (duration (heap s ! r)))"

lemma earliestStart_eq:
  "earliestStart z s d ds = (if floorOK z s ds then Inr (floorOf z s d ds) else Inl RangeError)"
  by (induction ds arbitrary: d) (auto simp: floorOK_def addDays_eq split: option.splits)

definition commitOf ::
  "zone \<Rightarrow> project \<Rightarrow> (string \<rightharpoonup> date) \<Rightarrow> date \<Rightarrow> string option \<Rightarrow> task \<Rightarrow> task \<times> (string \<rightharpoonup> date)" where
  "commitOf z project ua fl bestUser task =
     (case bestUser of
        None \<Rightarrow> (task\<lparr>startDate := fl\<rparr>, ua)
      | Some b \<Rightarrow>
          if b = [] then (task\<lparr>startDate := fl\<rparr>, ua)
          else
            (let userNextFree = (case ua b of None \<Rightarrow> p_startDate project | Some d \<Rightarrow> d);
                 actualStartDate = maxDate fl userNextFree;
                 newEnd = endDay z actualStartDate (duration task)
             in (task\<lparr>assignedTo := Some b, startDate := actualStartDate\<rparr>, ua(b \<mapsto> newEnd))))"

definition commitOK ::
  "zone \<Rightarrow> project \<Rightarrow> (string \<rightharpoonup> date) \<Rightarrow> date \<Rightarrow> string option \<Rightarrow> task \<Rightarrow> bool" where
  "commitOK z project ua fl bestUser task \<longleftrightarrow>
     (case bestUser of
        None \<Rightarrow> True
      | Some b \<Rightarrow>
          b = [] \<or>
          inRange z (maxDate fl (case ua b of None \<Rightarrow> p_startDate project | Some d \<Rightarrow> d))
            (duration task))"

lemma commitTask_eq:
  "commitTask z project ua fl b task =
     (if commitOK z project ua fl b task then Inr (commitOf z project ua fl b task)
      else Inl RangeError)"
  by (auto simp: commitTask_def commitOf_def commitOK_def addDays_eq Let_def
      split: option.splits)

fun levelOf :: "zone \<Rightarrow> project \<Rightarrow> task list \<Rightarrow> (string \<rightharpoonup> date) \<Rightarrow> (string \<rightharpoonup> date)" where
  "levelOf z project [] ua = ua"
| "levelOf z project (t # ts) ua =
     levelOf z project ts
       (case assignedTo t of
          None \<Rightarrow> ua
        | Some a \<Rightarrow>
            if projectId t \<noteq> p_id project \<and> a \<noteq> [] \<and> ua a \<noteq> None then
              ua(a \<mapsto> maxDate (the (ua a)) (endDay z (startDate t) (duration t)))
            else ua)"

fun levelOK :: "zone \<Rightarrow> project \<Rightarrow> task list \<Rightarrow> (string \<rightharpoonup> date) \<Rightarrow> bool" where
  "levelOK z project [] ua = True"
| "levelOK z project (t # ts) ua =
     (case assignedTo t of
        None \<Rightarrow> levelOK z project ts ua
      | Some a \<Rightarrow>
          if projectId t \<noteq> p_id project \<and> a \<noteq> [] \<and> ua a \<noteq> None then
            inRange z (startDate t) (duration t) \<and>
            levelOK z project ts (ua(a \<mapsto> maxDate (the (ua a)) (endDay z (startDate t) (duration t))))
          else levelOK z project ts ua)"

lemma levelResources_eq:
  "levelResources z project ts ua =
     (if levelOK z project ts ua then Inr (levelOf z project ts ua) else Inl RangeError)"
  by (induction ts arbitrary: ua) (auto simp: addDays_eq Let_def split: option.splits)


subsection \<open>Invariant rules\<close>

lemma loop_invariant:
  "(\<forall>s s1. P s \<and> queue s \<noteq> [] \<and> step z project allUsers s = Inr s1 \<longrightarrow> P s1) \<Longrightarrow>
   P s \<Longrightarrow> loop z project allUsers s = Inr s' \<Longrightarrow> P s' \<and> queue s' = []"
proof (induction z project allUsers s rule: loop.induct)
  case (1 z project allUsers s)
  show ?case
  proof (cases "queue s = []")
    case True
    with "1.prems" show ?thesis by (simp add: loop.simps)
  next
    case False
    with "1.prems"(3) obtain s1 where s1: "step z project allUsers s = Inr s1"
      and l: "loop z project allUsers s1 = Inr s'"
      by (auto simp: loop.simps[of z project allUsers s] split: sum.splits)
    from "1.prems"(1,2) False s1 have "P s1" by blast
    from "1.IH"[OF False s1 "1.prems"(1) this l] show ?thesis .
  qed
qed

lemma loop_total:
  "(\<forall>s. P s \<and> queue s \<noteq> [] \<longrightarrow> (\<exists>s1. step z project allUsers s = Inr s1 \<and> P s1)) \<Longrightarrow>
   P s \<Longrightarrow> \<exists>s'. loop z project allUsers s = Inr s'"
proof (induction z project allUsers s rule: loop.induct)
  case (1 z project allUsers s)
  show ?case
  proof (cases "queue s = []")
    case True
    then show ?thesis by (simp add: loop.simps)
  next
    case False
    with "1.prems" obtain s1 where s1: "step z project allUsers s = Inr s1" and p: "P s1"
      by blast
    from "1.IH"[OF False s1 "1.prems"(1) p] obtain s' where "loop z project allUsers s1 = Inr s'"
      by blast
    with False s1 show ?thesis by (simp add: loop.simps[of z project allUsers s])
  qed
qed


lemma sortQueue_set: "sortQueue s q = Inr q' \<Longrightarrow> set q' = set q"
  by (auto simp: sortQueue_def split: if_splits)

lemma sortQueue_distinct: "sortQueue s q = Inr q' \<Longrightarrow> distinct q' = distinct q"
  by (auto simp: sortQueue_def split: if_splits)

lemma sortQueue_ok: "set q \<subseteq> dom (taskMap s) \<Longrightarrow> \<exists>q'. sortQueue s q = Inr q'"
  by (auto simp: sortQueue_def queueWeight_def split: option.splits)

lemma release_frame:
  "release s ns = Inr s' \<Longrightarrow>
   heap s' = heap s \<and> taskMap s' = taskMap s \<and> outgoingEdges s' = outgoingEdges s \<and>
   userAvailability s' = userAvailability s \<and> optimizedRefs s' = optimizedRefs s \<and>
   conflictLog s' = conflictLog s"
proof (induction ns arbitrary: s)
  case Nil
  then show ?case by simp
next
  case (Cons n ns)
  from Cons.prems obtain d where d: "map_of (incomingDegree s) n = Some d"
    by (auto split: option.splits)
  let ?s1 = "s\<lparr>incomingDegree := AList.update n (d - 1) (incomingDegree s)\<rparr>"
  show ?case
  proof (cases "d - 1 = 0")
    case True
    with Cons.prems d obtain q where "release (?s1\<lparr>queue := q\<rparr>) ns = Inr s'"
      by (auto simp: Let_def split: sum.splits)
    from Cons.IH[OF this] show ?thesis by simp
  next
    case False
    with Cons.prems d have "release ?s1 ns = Inr s'"
      by (auto simp: Let_def)
    from Cons.IH[OF this] show ?thesis by simp
  qed
qed

lemma release_queue_keys:
  "release s ns = Inr s' \<Longrightarrow>
   set (queue s') \<subseteq> set (queue s) \<union> set ns \<and>
   dom (map_of (incomingDegree s')) = dom (map_of (incomingDegree s))"
proof (induction ns arbitrary: s)
  case Nil
  then show ?case by simp
next
  case (Cons n ns)
  from Cons.prems obtain d where d: "map_of (incomingDegree s) n = Some d"
    by (auto split: option.splits)
  let ?s1 = "s\<lparr>incomingDegree := AList.update n (d - 1) (incomingDegree s)\<rparr>"
  have dm: "dom (map_of (incomingDegree ?s1)) = dom (map_of (incomingDegree s))"
    using d by (auto simp: update_conv')
  show ?case
  proof (cases "d - 1 = 0")
    case True
    with Cons.prems d obtain q where q: "sortQueue ?s1 (queue ?s1 @ [n]) = Inr q"
      and r: "release (?s1\<lparr>queue := q\<rparr>) ns = Inr s'"
      by (auto simp: Let_def split: sum.splits)
    from Cons.IH[OF r] sortQueue_set[OF q] dm show ?thesis by auto
  next
    case False
    with Cons.prems d have "release ?s1 ns = Inr s'"
      by (auto simp: Let_def)
    from Cons.IH[OF this] dm show ?thesis by auto
  qed
qed

lemma release_ok:
  "set (queue s) \<union> set ns \<subseteq> dom (taskMap s) \<Longrightarrow>
   set ns \<subseteq> dom (map_of (incomingDegree s)) \<Longrightarrow> \<exists>s'. release s ns = Inr s'"
proof (induction ns arbitrary: s)
  case Nil
  then show ?case by simp
next
  case (Cons n ns)
  from Cons.prems obtain d where d: "map_of (incomingDegree s) n = Some d"
    by auto
  let ?s1 = "s\<lparr>incomingDegree := AList.update n (d - 1) (incomingDegree s)\<rparr>"
  have dm: "dom (map_of (incomingDegree ?s1)) = dom (map_of (incomingDegree s))"
    using d by (auto simp: update_conv')
  show ?case
  proof (cases "d - 1 = 0")
    case True
    have "set (queue ?s1 @ [n]) \<subseteq> dom (taskMap ?s1)" using Cons.prems by auto
    from sortQueue_ok[OF this] obtain q where q: "sortQueue ?s1 (queue ?s1 @ [n]) = Inr q"
      by blast
    have "\<exists>s'. release (?s1\<lparr>queue := q\<rparr>) ns = Inr s'"
      using Cons.prems sortQueue_set[OF q] dm by (intro Cons.IH) auto
    with True d q show ?thesis by (simp add: Let_def)
  next
    case False
    have "\<exists>s'. release ?s1 ns = Inr s'"
      using Cons.prems dm by (intro Cons.IH) auto
    with False d show ?thesis by (simp add: Let_def)
  qed
qed

subsection \<open>Before the loop\<close>

lemma cloneTasks_heap: "heap (cloneTasks ts s) = heap s @ ts"
  by (induction ts arbitrary: s) auto

lemma cloneTasks_frame:
  "userAvailability (cloneTasks ts s) = userAvailability s \<and>
   queue (cloneTasks ts s) = queue s \<and>
   optimizedRefs (cloneTasks ts s) = optimizedRefs s \<and>
   conflictLog (cloneTasks ts s) = conflictLog s"
  by (induction ts arbitrary: s) auto

lemma cloneTasks_dom: "dom (taskMap (cloneTasks ts s)) = dom (taskMap s) \<union> t_id ` set ts"
  by (induction ts arbitrary: s) auto

lemma cloneTasks_taskMap_other:
  "k \<notin> t_id ` set ts \<Longrightarrow> taskMap (cloneTasks ts s) k = taskMap s k"
  by (induction ts arbitrary: s) auto

lemma cloneTasks_taskMap_ref:
  "k \<in> t_id ` set ts \<Longrightarrow> taskMap (cloneTasks ts s) k = Some r \<Longrightarrow>
   length (heap s) \<le> r \<and> r < length (heap s) + length ts \<and>
   t_id (ts ! (r - length (heap s))) = k"
proof (induction ts arbitrary: s)
  case Nil
  then show ?case by simp
next
  case (Cons t ts)
  let ?s1 = "s\<lparr>heap := heap s @ [t], taskMap := (taskMap s)(t_id t \<mapsto> length (heap s)),
          incomingDegree := AList.update (t_id t) 0 (incomingDegree s),
          outgoingEdges := (outgoingEdges s)(t_id t \<mapsto> [])\<rparr>"
  show ?case
  proof (cases "k \<in> t_id ` set ts")
    case True
    from Cons.IH[OF True, of ?s1] Cons.prems(2)
    have "length (heap ?s1) \<le> r \<and> r < length (heap ?s1) + length ts \<and>
      t_id (ts ! (r - length (heap ?s1))) = k" by simp
    then have a: "Suc (length (heap s)) \<le> r" "r < Suc (length (heap s) + length ts)"
      and b: "t_id (ts ! (r - Suc (length (heap s)))) = k" by simp_all
    from a have "r - length (heap s) = Suc (r - Suc (length (heap s)))" by arith
    with a b show ?thesis by simp
  next
    case False
    with Cons.prems have k: "k = t_id t" by auto
    from Cons.prems(2) cloneTasks_taskMap_other[OF False, of ?s1] k
    show ?thesis by auto
  qed
qed

lemma cloneTasks_taskMap_distinct:
  "distinct (map t_id ts) \<Longrightarrow> i < length ts \<Longrightarrow>
   taskMap (cloneTasks ts s) (t_id (ts ! i)) = Some (length (heap s) + i)"
proof (induction ts arbitrary: s i)
  case Nil
  then show ?case by simp
next
  case (Cons t ts)
  show ?case
  proof (cases i)
    case 0
    with Cons.prems show ?thesis by (simp add: cloneTasks_taskMap_other)
  next
    case (Suc j)
    with Cons.prems Cons.IH[of j] show ?thesis by simp
  qed
qed

lemma cloneTasks_outgoingEdges:
  "outgoingEdges (cloneTasks ts s) k = (if k \<in> t_id ` set ts then Some [] else outgoingEdges s k)"
  by (induction ts arbitrary: s) auto

lemma cloneTasks_incomingDegree:
  "map_of (incomingDegree (cloneTasks ts s)) k =
     (if k \<in> t_id ` set ts then Some 0 else map_of (incomingDegree s) k)"
  by (induction ts arbitrary: s) (auto simp: update_conv')

lemma addDependencies_frame:
  "heap (addDependencies tid ds s) = heap s \<and>
   taskMap (addDependencies tid ds s) = taskMap s \<and>
   userAvailability (addDependencies tid ds s) = userAvailability s \<and>
   queue (addDependencies tid ds s) = queue s \<and>
   optimizedRefs (addDependencies tid ds s) = optimizedRefs s \<and>
   conflictLog (addDependencies tid ds s) = conflictLog s"
  by (induction ds arbitrary: s) auto

lemma addEdges_frame:
  "heap (addEdges ts s) = heap s \<and>
   taskMap (addEdges ts s) = taskMap s \<and>
   userAvailability (addEdges ts s) = userAvailability s \<and>
   queue (addEdges ts s) = queue s \<and>
   optimizedRefs (addEdges ts s) = optimizedRefs s \<and>
   conflictLog (addEdges ts s) = conflictLog s"
  by (induction ts arbitrary: s) (auto simp: addDependencies_frame)

text \<open>What the inner loop adds: one successor entry and one unit of in-degree per
  dependency that is a key of \<open>taskMap\<close>.\<close>

lemma addDependencies_outgoingEdges:
  "outgoingEdges (addDependencies tid ds s) k =
     (case outgoingEdges s k of
        None \<Rightarrow> None
      | Some l \<Rightarrow>
          Some (l @ replicate (if taskMap s k \<noteq> None then count_list ds k else 0) tid))"
proof (induction ds arbitrary: s)
  case Nil
  then show ?case by (simp split: option.splits)
next
  case (Cons d ds)
  show ?case
    by (auto simp: Cons.IH addDependencies_frame replicate_app_Cons_same
        split: option.splits)
qed

lemma addDependencies_incomingDegree:
  "map_of (incomingDegree (addDependencies tid ds s)) k =
     (if k = tid \<and> (\<exists>d \<in> set ds. taskMap s d \<noteq> None)
      then Some (degreeOr0 (incomingDegree s) tid
                 + int (length (filter (\<lambda>d. taskMap s d \<noteq> None) ds)))
      else map_of (incomingDegree s) k)"
proof (induction ds arbitrary: s)
  case Nil
  then show ?case by simp
next
  case (Cons d ds)
  show ?case
    by (auto simp: Cons.IH update_conv' degreeOr0_def split: option.splits)
qed

lemma addDependencies_degreeOr0:
  "degreeOr0 (incomingDegree (addDependencies tid ds s)) k =
     degreeOr0 (incomingDegree s) k
       + (if k = tid then int (length (filter (\<lambda>d. taskMap s d \<noteq> None) ds)) else 0)"
  by (auto simp: degreeOr0_def addDependencies_incomingDegree filter_empty_conv
      split: option.splits)

lemma addDependencies_keys:
  "map_of (incomingDegree s) k \<noteq> None \<Longrightarrow>
   map_of (incomingDegree (addDependencies tid ds s)) k \<noteq> None"
  by (auto simp: addDependencies_incomingDegree)

lemma addEdges_outgoingEdges:
  "outgoingEdges (addEdges ts s) k =
     (case outgoingEdges s k of
        None \<Rightarrow> None
      | Some l \<Rightarrow>
          Some (l @ concat (map (\<lambda>t. replicate
                  (if taskMap s k \<noteq> None then count_list (dependencies t) k else 0)
                  (t_id t)) ts)))"
proof (induction ts arbitrary: s)
  case Nil
  then show ?case by (simp split: option.splits)
next
  case (Cons t ts)
  show ?case
    by (simp add: Cons.IH addDependencies_outgoingEdges addDependencies_frame
        split: option.splits)
qed

lemma addEdges_degreeOr0:
  "degreeOr0 (incomingDegree (addEdges ts s)) k =
     degreeOr0 (incomingDegree s) k
       + sum_list (map (\<lambda>t. if t_id t = k
                             then int (length (filter (\<lambda>d. taskMap s d \<noteq> None) (dependencies t)))
                             else 0) ts)"
proof (induction ts arbitrary: s)
  case Nil
  then show ?case by simp
next
  case (Cons t ts)
  show ?case
    by (simp add: Cons.IH addDependencies_degreeOr0 addDependencies_frame cong: if_cong)
qed

lemma addEdges_keys:
  "map_of (incomingDegree s) k \<noteq> None \<Longrightarrow>
   map_of (incomingDegree (addEdges ts s)) k \<noteq> None"
proof (induction ts arbitrary: s)
  case Nil
  then show ?case by simp
next
  case (Cons t ts)
  from addDependencies_keys[OF Cons.prems] show ?case
    by (simp add: Cons.IH)
qed

lemma sum_list_pick:
  "distinct (map t_id ts) \<Longrightarrow> t \<in> set ts \<Longrightarrow>
   sum_list (map (\<lambda>t'. if t_id t' = t_id t then f t' else (0::'a::comm_monoid_add)) ts) = f t"
proof (induction ts)
  case Nil
  then show ?case by simp
next
  case (Cons a ts)
  have z: "sum_list (map (\<lambda>t'. if t_id t' = k then f t' else 0) ts) = 0"
    if "k \<notin> t_id ` set ts" for k
    using that by (induction ts) auto
  show ?case
  proof (cases "t = a")
    case True
    with Cons.prems z[of "t_id a"] show ?thesis by simp
  next
    case False
    with Cons.prems have "t \<in> set ts" "t_id a \<noteq> t_id t" by auto
    with Cons show ?thesis by simp
  qed
qed

lemma count_list_replicate_eq: "count_list (replicate n y) x = (if x = y then n else 0)"
  by (induction n) auto

lemma count_list_concat_replicate:
  "count_list (concat (map (\<lambda>t. replicate (c t) (g t)) ts)) x =
     sum_list (map (\<lambda>t. if g t = x then c t else 0) ts)"
  by (induction ts) (auto simp: count_list_append count_list_replicate_eq)

lemma seedUsers_other: "k \<notin> u_id ` set us \<Longrightarrow> seedUsers today us ua k = ua k"
  by (induction us arbitrary: ua) auto

lemma seedUsers_user: "k \<in> u_id ` set us \<Longrightarrow> seedUsers today us ua k = Some today"
proof (induction us arbitrary: ua)
  case Nil
  then show ?case by simp
next
  case (Cons u us)
  show ?case
  proof (cases "k \<in> u_id ` set us")
    case True
    then show ?thesis by (simp add: Cons.IH)
  next
    case False
    with Cons.prems have "k = u_id u" by auto
    with False show ?thesis by (simp add: seedUsers_other)
  qed
qed

lemma levelOf_dom: "dom (levelOf z project ts ua) = dom ua"
  by (induction ts arbitrary: ua) (auto simp: Let_def split: option.splits)

subsection \<open>The function returns or throws \<open>RangeError\<close>\<close>

definition linked :: "user list \<Rightarrow> state \<Rightarrow> bool" where
  "linked allUsers s \<longleftrightarrow>
     set (queue s) \<subseteq> dom (taskMap s) \<and>
     (\<forall>k ns. outgoingEdges s k = Some ns \<longrightarrow>
        set ns \<subseteq> dom (taskMap s) \<inter> dom (map_of (incomingDegree s))) \<and>
     u_id ` set allUsers \<subseteq> dom (userAvailability s)"

lemma sortCandidates_ok:
  "u_id ` set cs \<subseteq> dom ua \<Longrightarrow> sortCandidates ua cs = Inr (sort_key (\<lambda>u. the (ua (u_id u))) cs)"
  by (auto simp: sortCandidates_def)

lemma chooseUser_ok:
  assumes "u_id ` set allUsers \<subseteq> dom ua"
  shows "\<exists>b cs. chooseUser allUsers ua fl task = Inr (b, cs)"
proof (cases "requiredSpecialty task")
  case None
  then show ?thesis by (simp add: chooseUser_def)
next
  case (Some x)
  show ?thesis
  proof (cases "filter (satisfies x) allUsers")
    case Nil
    with Some show ?thesis by (simp add: chooseUser_def)
  next
    case (Cons c cs)
    have "u_id ` set (filter (satisfies x) allUsers) \<subseteq> dom ua"
      using assms by auto
    from sortCandidates_ok[OF this] Cons
    have "sortCandidates ua (c # cs) = Inr (sort_key (\<lambda>u. the (ua (u_id u))) (c # cs))"
      by simp
    with Some Cons show ?thesis by (simp add: chooseUser_def)
  qed
qed

lemma commitOf_dom: "commitOf z project ua fl b task = (task', ua') \<Longrightarrow> dom ua \<subseteq> dom ua'"
  by (auto simp: commitOf_def Let_def split: option.splits if_splits)

lemma assignTask_Inr:
  "assignTask z project allUsers s r = Inr s1 \<Longrightarrow>
   \<exists>bestUser cs task' ua'.
     chooseUser allUsers (userAvailability s)
       (floorOf z s (p_startDate project) (dependencies (heap s ! r))) (heap s ! r)
       = Inr (bestUser, cs) \<and>
     commitOf z project (userAvailability s)
       (floorOf z s (p_startDate project) (dependencies (heap s ! r))) bestUser (heap s ! r)
       = (task', ua') \<and>
     s1 = s\<lparr>heap := (heap s)[r := task'], userAvailability := ua',
            optimizedRefs := optimizedRefs s @ [r], conflictLog := conflictLog s @ cs\<rparr> \<and>
     floorOK z s (dependencies (heap s ! r)) \<and>
     commitOK z project (userAvailability s)
       (floorOf z s (p_startDate project) (dependencies (heap s ! r))) bestUser (heap s ! r)"
  unfolding assignTask_def earliestStart_eq commitTask_eq
  by (auto simp: Let_def split: sum.splits prod.splits if_splits)

lemma assignTask_frame:
  assumes "assignTask z project allUsers s r = Inr s1"
  shows "taskMap s1 = taskMap s \<and> outgoingEdges s1 = outgoingEdges s \<and>
   incomingDegree s1 = incomingDegree s \<and> queue s1 = queue s \<and>
   length (heap s1) = length (heap s) \<and>
   dom (userAvailability s) \<subseteq> dom (userAvailability s1)"
proof -
  from assignTask_Inr[OF assms] obtain bestUser cs task' ua' where
    c: "commitOf z project (userAvailability s)
       (floorOf z s (p_startDate project) (dependencies (heap s ! r))) bestUser (heap s ! r)
       = (task', ua')"
    and s1: "s1 = s\<lparr>heap := (heap s)[r := task'], userAvailability := ua',
            optimizedRefs := optimizedRefs s @ [r], conflictLog := conflictLog s @ cs\<rparr>"
    by blast
  from commitOf_dom[OF c] s1 show ?thesis by simp
qed

text \<open>The processing of a task returns when no \<^verbatim>\<open>addDays\<close> of it throws; the only error
  it raises is the \<open>RangeError\<close> of \<^verbatim>\<open>addDays\<close>.\<close>

lemma assignTask_ok:
  assumes "u_id ` set allUsers \<subseteq> dom (userAvailability s)"
    and "floorOK z s (dependencies (heap s ! r))"
    and "\<And>b cs. chooseUser allUsers (userAvailability s)
           (floorOf z s (p_startDate project) (dependencies (heap s ! r))) (heap s ! r)
           = Inr (b, cs) \<Longrightarrow>
         commitOK z project (userAvailability s)
           (floorOf z s (p_startDate project) (dependencies (heap s ! r))) b (heap s ! r)"
  shows "\<exists>s1. assignTask z project allUsers s r = Inr s1"
proof -
  from chooseUser_ok[OF assms(1)] obtain b cs where
    c: "chooseUser allUsers (userAvailability s)
       (floorOf z s (p_startDate project) (dependencies (heap s ! r))) (heap s ! r)
       = Inr (b, cs)" by blast
  from assms(3)[OF c] c assms(2) show ?thesis
    unfolding assignTask_def earliestStart_eq commitTask_eq
    by (auto simp: Let_def split: prod.splits)
qed

lemma assignTask_cases:
  assumes "u_id ` set allUsers \<subseteq> dom (userAvailability s)"
  shows "(\<exists>s1. assignTask z project allUsers s r = Inr s1) \<or>
         assignTask z project allUsers s r = Inl RangeError"
proof -
  from chooseUser_ok[OF assms(1)] obtain b cs where
    "chooseUser allUsers (userAvailability s)
       (floorOf z s (p_startDate project) (dependencies (heap s ! r))) (heap s ! r)
       = Inr (b, cs)" by blast
  then show ?thesis
    unfolding assignTask_def earliestStart_eq commitTask_eq
    by (auto simp: Let_def split: prod.splits)
qed

lemma step_after_assign:
  assumes l: "linked allUsers s" and q: "queue s = k # rest" and r: "taskMap s k = Some r"
    and s1: "assignTask z project allUsers (s\<lparr>queue := rest\<rparr>) r = Inr s1"
  shows "\<exists>s'. step z project allUsers s = Inr s' \<and> linked allUsers s'"
proof -
  note f = assignTask_frame[OF s1]
  from l have "u_id ` set allUsers \<subseteq> dom (userAvailability s)"
    unfolding linked_def by simp
  also from f have "\<dots> \<subseteq> dom (userAvailability s1)" by simp
  finally have "u_id ` set allUsers \<subseteq> dom (userAvailability s1)" .
  with l f q have l1: "linked allUsers s1"
    unfolding linked_def by auto
  show ?thesis
  proof (cases "outgoingEdges s1 k")
    case None
    with q r s1 l1 show ?thesis by (auto simp: step_def)
  next
    case (Some ns)
    with l1 have ns: "set ns \<subseteq> dom (taskMap s1) \<inter> dom (map_of (incomingDegree s1))"
      by (auto simp: linked_def)
    with l1 have "set (queue s1) \<union> set ns \<subseteq> dom (taskMap s1)"
      "set ns \<subseteq> dom (map_of (incomingDegree s1))"
      by (auto simp: linked_def)
    from release_ok[OF this] obtain s' where s': "release s1 ns = Inr s'" by blast
    from release_frame[OF s'] release_queue_keys[OF s'] l1 ns
    have "linked allUsers s'" unfolding linked_def by auto
    with q r s1 Some s' show ?thesis by (auto simp: step_def)
  qed
qed

lemma step_linked:
  assumes "linked allUsers s" and "queue s \<noteq> []"
  shows "(\<exists>s1. step z project allUsers s = Inr s1 \<and> linked allUsers s1) \<or>
         step z project allUsers s = Inl RangeError"
proof -
  from assms(2) obtain k rest where q: "queue s = k # rest" by (cases "queue s") auto
  with assms(1) obtain r where r: "taskMap s k = Some r" by (auto simp: linked_def)
  let ?s0 = "s\<lparr>queue := rest\<rparr>"
  from assms(1) have "u_id ` set allUsers \<subseteq> dom (userAvailability ?s0)"
    by (simp add: linked_def)
  from assignTask_cases[OF this, of z project r]
  show ?thesis
  proof
    assume "\<exists>s1. assignTask z project allUsers ?s0 r = Inr s1"
    then obtain s1 where "assignTask z project allUsers ?s0 r = Inr s1" by blast
    from step_after_assign[OF assms(1) q r this] show ?thesis by blast
  next
    assume "assignTask z project allUsers ?s0 r = Inl RangeError"
    with q r show ?thesis by (simp add: step_def)
  qed
qed

lemma step_keeps_linked:
  assumes "linked allUsers s" and "queue s \<noteq> []" and "step z project allUsers s = Inr s1"
  shows "linked allUsers s1"
  using step_linked[OF assms(1,2), of z project] assms(3) by auto

lemma set_concat_replicate: "set (concat (map (\<lambda>t. replicate (c t) (g t)) ts)) \<subseteq> g ` set ts"
  by (induction ts) auto

lemma prepare_linked:
  assumes "levelOK z project existingGlobalTasks (seedUsers today allUsers Map.empty)"
  shows "\<exists>s. prepare z today project projectTasks allUsers existingGlobalTasks = Inr s \<and>
           linked allUsers s"
proof -
  let ?s0 = "cloneTasks projectTasks (initialState projectTasks existingGlobalTasks)"
  let ?s1 = "addEdges projectTasks ?s0"
  let ?ua = "levelOf z project existingGlobalTasks (seedUsers today allUsers Map.empty)"
  let ?s2 = "?s1\<lparr>userAvailability := ?ua\<rparr>"
  have tm: "dom (taskMap ?s2) = t_id ` set projectTasks"
    by (simp add: addEdges_frame cloneTasks_dom initialState_def)
  have "set (initialQueue projectTasks ?s2) \<subseteq> dom (taskMap ?s2)"
    unfolding tm by (auto simp: initialQueue_def)
  from sortQueue_ok[OF this] obtain q where q: "sortQueue ?s2 (initialQueue projectTasks ?s2) = Inr q"
    by blast
  have p: "prepare z today project projectTasks allUsers existingGlobalTasks = Inr (?s2\<lparr>queue := q\<rparr>)"
    using q assms by (simp add: prepare_def Let_def levelResources_eq)
  have a: "set (queue (?s2\<lparr>queue := q\<rparr>)) \<subseteq> dom (taskMap (?s2\<lparr>queue := q\<rparr>))"
    using sortQueue_set[OF q] tm by (auto simp: initialQueue_def)
  have keys: "t_id ` set projectTasks \<subseteq> dom (map_of (incomingDegree ?s1))"
  proof
    fix k assume "k \<in> t_id ` set projectTasks"
    then have "map_of (incomingDegree ?s0) k \<noteq> None"
      by (simp add: cloneTasks_incomingDegree)
    from addEdges_keys[OF this] show "k \<in> dom (map_of (incomingDegree ?s1))" by auto
  qed
  have b: "set ns \<subseteq> dom (taskMap (?s2\<lparr>queue := q\<rparr>)) \<inter> dom (map_of (incomingDegree (?s2\<lparr>queue := q\<rparr>)))"
    if "outgoingEdges (?s2\<lparr>queue := q\<rparr>) k = Some ns" for k ns
  proof -
    from that have "set ns \<subseteq> t_id ` set projectTasks"
      using set_concat_replicate[of _ t_id projectTasks]
      by (auto simp: addEdges_outgoingEdges cloneTasks_outgoingEdges initialState_def
          split: option.splits if_splits)
    with keys tm show ?thesis by auto
  qed
  have c: "u_id ` set allUsers \<subseteq> dom (userAvailability (?s2\<lparr>queue := q\<rparr>))"
    using seedUsers_user[of _ allUsers today Map.empty]
    by (auto simp: levelOf_dom)
  from p a b c show ?thesis unfolding linked_def by blast
qed


lemma prepare_Inr:
  assumes "prepare z today project projectTasks allUsers existingGlobalTasks = Inr s"
  shows "levelOK z project existingGlobalTasks (seedUsers today allUsers Map.empty)"
    "linked allUsers s"
proof -
  from assms show l: "levelOK z project existingGlobalTasks (seedUsers today allUsers Map.empty)"
    by (auto simp: prepare_def Let_def levelResources_eq split: if_splits)
  from prepare_linked[OF l, of projectTasks] assms show "linked allUsers s" by auto
qed


subsection \<open>The sort of the queue\<close>

lemma sortQueue_stable:
  assumes "sortQueue s q = Inr q'"
  shows "filter (\<lambda>k. queueWeight s k = Some w) q' = filter (\<lambda>k. queueWeight s k = Some w) q"
proof -
  from assms have all: "\<forall>k \<in> set q. queueWeight s k \<noteq> None"
    and q': "q' = sort_key (\<lambda>k. - the (queueWeight s k)) q"
    by (auto simp: sortQueue_def split: if_splits)
  have e: "(queueWeight s k = Some w) = (- the (queueWeight s k) = - w)" if "k \<in> set q" for k
    using all that by auto
  have "filter (\<lambda>k. queueWeight s k = Some w) q' = filter (\<lambda>k. - the (queueWeight s k) = - w) q'"
    by (rule filter_cong) (auto simp: q' e)
  also have "\<dots> = filter (\<lambda>k. - the (queueWeight s k) = - w) q"
    unfolding q' by (rule sort_key_stable)
  also have "\<dots> = filter (\<lambda>k. queueWeight s k = Some w) q"
    by (rule filter_cong) (auto simp: e)
  finally show ?thesis .
qed

lemma sortQueue_sorted:
  assumes "sortQueue s q = Inr q'"
  shows "sorted_wrt (\<lambda>a b. \<exists>wa wb. queueWeight s a = Some wa \<and> queueWeight s b = Some wb \<and> wb \<le> wa) q'"
proof -
  from assms have all: "\<forall>k \<in> set q. queueWeight s k \<noteq> None"
    and q': "q' = sort_key (\<lambda>k. - the (queueWeight s k)) q"
    by (auto simp: sortQueue_def split: if_splits)
  have "sorted (map (\<lambda>k. - the (queueWeight s k)) q')"
    unfolding q' by (rule sorted_sort_key)
  then have "sorted_wrt (\<lambda>a b. - the (queueWeight s a) \<le> - the (queueWeight s b)) q'"
    by (simp add: sorted_map)
  moreover have "\<exists>wa wb. queueWeight s a = Some wa \<and> queueWeight s b = Some wb \<and> wb \<le> wa"
    if "a \<in> set q'" "b \<in> set q'" "- the (queueWeight s a) \<le> - the (queueWeight s b)" for a b
  proof -
    from that(1,2) all have "queueWeight s a \<noteq> None" "queueWeight s b \<noteq> None"
      by (simp_all add: q')
    then obtain wa wb where "queueWeight s a = Some wa" "queueWeight s b = Some wb"
      by blast
    with that(3) show ?thesis by simp
  qed
  ultimately show ?thesis
    by (rule sorted_wrt_mono_rel[rotated])
qed

subsection \<open>The object store\<close>

text \<open>Two task objects agree on every field the scheduler never writes.\<close>

definition sameStatics :: "task \<Rightarrow> task \<Rightarrow> bool" where
  "sameStatics a b \<longleftrightarrow>
     t_id a = t_id b \<and> projectId a = projectId b \<and> name a = name b \<and>
     dependencies a = dependencies b \<and> duration a = duration b \<and>
     requiredSpecialty a = requiredSpecialty b \<and> priority a = priority b"

lemma sameStatics_refl [simp]: "sameStatics a a"
  by (simp add: sameStatics_def)

lemma sameStatics_trans: "sameStatics a b \<Longrightarrow> sameStatics b c \<Longrightarrow> sameStatics a c"
  by (simp add: sameStatics_def)

lemma commitOf_statics:
  "commitOf z project ua fl b task = (task', ua') \<Longrightarrow> sameStatics task' task"
  by (auto simp: commitOf_def sameStatics_def Let_def split: option.splits if_splits)

lemma step_Inr:
  assumes "queue s = k # rest" and "step z project allUsers s = Inr s'"
  shows "\<exists>r s1. taskMap s k = Some r \<and>
           assignTask z project allUsers (s\<lparr>queue := rest\<rparr>) r = Inr s1 \<and>
           (case outgoingEdges s k of None \<Rightarrow> s' = s1 | Some ns \<Rightarrow> release s1 ns = Inr s')"
proof -
  from assms obtain r where r: "taskMap s k = Some r"
    by (auto simp: step_def split: option.splits)
  with assms obtain s1 where s1: "assignTask z project allUsers (s\<lparr>queue := rest\<rparr>) r = Inr s1"
    by (auto simp: step_def split: sum.splits)
  from assignTask_frame[OF s1] have "outgoingEdges s1 = outgoingEdges s" by simp
  with assms r s1 show ?thesis
    by (auto simp: step_def split: option.splits)
qed

text \<open>
  The store during the loop, for the caller's cells \<open>h0\<close> and the tasks \<open>ts\<close> that were
  cloned: the caller's cells are as they were, every reference of \<^verbatim>\<open>taskMap\<close> and of the
  output points behind them, at the clone of the task with that id, and a clone differs
  from its original in \<^verbatim>\<open>startDate\<close> and \<^verbatim>\<open>assignedTo\<close> at most.
\<close>

definition framed :: "task list \<Rightarrow> task list \<Rightarrow> state \<Rightarrow> bool" where
  "framed h0 ts s \<longleftrightarrow>
     length (heap s) = length h0 + length ts \<and>
     take (length h0) (heap s) = h0 \<and>
     (\<forall>k r. taskMap s k = Some r \<longrightarrow>
        length h0 \<le> r \<and> r < length h0 + length ts \<and> t_id (ts ! (r - length h0)) = k) \<and>
     (\<forall>r \<in> set (optimizedRefs s). length h0 \<le> r \<and> r < length h0 + length ts) \<and>
     (\<forall>i < length ts. sameStatics (heap s ! (length h0 + i)) (ts ! i))"

lemma framed_assignTask:
  assumes f: "framed h0 ts s" and r: "taskMap s k = Some r"
    and a: "assignTask z project allUsers s r = Inr s1"
  shows "framed h0 ts s1"
proof -
  from assignTask_Inr[OF a] obtain bestUser cs task' ua' where
    c: "commitOf z project (userAvailability s)
       (floorOf z s (p_startDate project) (dependencies (heap s ! r))) bestUser (heap s ! r)
       = (task', ua')"
    and s1: "s1 = s\<lparr>heap := (heap s)[r := task'], userAvailability := ua',
            optimizedRefs := optimizedRefs s @ [r], conflictLog := conflictLog s @ cs\<rparr>"
    by blast
  from f r have rb: "length h0 \<le> r" "r < length h0 + length ts"
    by (auto simp: framed_def)
  have st: "sameStatics ((heap s1) ! (length h0 + i)) (ts ! i)" if "i < length ts" for i
  proof (cases "length h0 + i = r")
    case True
    from f that have "sameStatics (heap s ! (length h0 + i)) (ts ! i)" by (simp add: framed_def)
    with commitOf_statics[OF c] True have "sameStatics task' (ts ! i)"
      by (auto intro: sameStatics_trans)
    with True f rb show ?thesis by (simp add: s1 framed_def)
  next
    case False
    with f that show ?thesis by (simp add: s1 framed_def)
  qed
  have tk: "take (length h0) (heap s1) = h0"
    using f rb by (simp add: s1 framed_def)
  from f rb st tk show ?thesis
    unfolding framed_def by (auto simp: s1)
qed

lemma framed_queue [simp]: "framed h0 ts (s\<lparr>queue := q\<rparr>) = framed h0 ts s"
  by (simp add: framed_def)

lemma framed_release: "release s ns = Inr s' \<Longrightarrow> framed h0 ts s' = framed h0 ts s"
  by (drule release_frame) (simp add: framed_def)

lemma framed_step:
  assumes "framed h0 ts s" and "queue s \<noteq> []" and "step z project allUsers s = Inr s'"
  shows "framed h0 ts s'"
proof -
  from assms(2) obtain k rest where q: "queue s = k # rest" by (cases "queue s") auto
  from step_Inr[OF q assms(3)] obtain r s1 where r: "taskMap s k = Some r"
    and a: "assignTask z project allUsers (s\<lparr>queue := rest\<rparr>) r = Inr s1"
    and e: "case outgoingEdges s k of None \<Rightarrow> s' = s1 | Some ns \<Rightarrow> release s1 ns = Inr s'"
    by blast
  have "framed h0 ts s1"
    by (rule framed_assignTask[OF _ _ a]) (use assms(1) r in simp_all)
  with e show ?thesis
    by (auto split: option.splits simp: framed_release)
qed

lemma framed_prepare:
  assumes "prepare z today project projectTasks allUsers existingGlobalTasks = Inr s"
  shows "framed (projectTasks @ existingGlobalTasks) projectTasks s"
proof -
  let ?s0 = "cloneTasks projectTasks (initialState projectTasks existingGlobalTasks)"
  let ?h0 = "projectTasks @ existingGlobalTasks"
  from assms obtain q ua where
    s: "s = (addEdges projectTasks ?s0)\<lparr>userAvailability := ua, queue := q\<rparr>"
    by (auto simp: prepare_def Let_def split: sum.splits)
  have h: "heap s = ?h0 @ projectTasks"
    by (simp add: s addEdges_frame cloneTasks_heap initialState_def)
  have tm: "taskMap s = taskMap ?s0" by (simp add: s addEdges_frame)
  have o: "optimizedRefs s = []"
    by (simp add: s addEdges_frame cloneTasks_frame initialState_def)
  have m: "length ?h0 \<le> r \<and> r < length ?h0 + length projectTasks \<and>
           t_id (projectTasks ! (r - length ?h0)) = k" if "taskMap s k = Some r" for k r
  proof (cases "k \<in> t_id ` set projectTasks")
    case True
    from cloneTasks_taskMap_ref[OF True, of "initialState projectTasks existingGlobalTasks" r] that
    show ?thesis by (simp add: tm initialState_def)
  next
    case False
    from cloneTasks_taskMap_other[OF False, of "initialState projectTasks existingGlobalTasks"] that
    show ?thesis by (simp add: tm initialState_def)
  qed
  show ?thesis
    unfolding framed_def using m by (auto simp: h o nth_append)
qed

lemma run_framed:
  assumes "run z today project projectTasks allUsers existingGlobalTasks = Inr s"
  shows "framed (projectTasks @ existingGlobalTasks) projectTasks s"
proof -
  from assms obtain s0 where
    p: "prepare z today project projectTasks allUsers existingGlobalTasks = Inr s0"
    and l: "loop z project allUsers s0 = Inr s"
    by (auto simp: run_def split: sum.splits)
  have "framed (projectTasks @ existingGlobalTasks) projectTasks s \<and> queue s = []"
    by (rule loop_invariant[where P = "framed (projectTasks @ existingGlobalTasks) projectTasks",
          OF _ framed_prepare[OF p] l]) (auto intro: framed_step)
  then show ?thesis by simp
qed

subsection \<open>The topological processing\<close>

text \<open>The ids of the tasks processed so far, in the order of processing.\<close>

definition doneIds :: "state \<Rightarrow> string list" where
  "doneIds s = map (\<lambda>r. t_id (heap s ! r)) (optimizedRefs s)"

text \<open>The successors of a task, as the second \<^verbatim>\<open>forEach\<close> lists them.\<close>

definition succs :: "task list \<Rightarrow> string \<Rightarrow> string list" where
  "succs ts k = concat (map (\<lambda>t. replicate (count_list (dependencies t) k) (t_id t)) ts)"

text \<open>The dependencies of a task that are in the task set and not in \<open>D\<close>, with repetitions.\<close>

definition pending :: "task list \<Rightarrow> string set \<Rightarrow> task \<Rightarrow> nat" where
  "pending ts D t = length (filter (\<lambda>d. d \<in> t_id ` set ts \<and> d \<notin> D) (dependencies t))"

lemma filter_insert_count:
  "k \<in> A \<Longrightarrow> k \<notin> D \<Longrightarrow>
   length (filter (\<lambda>d. d \<in> A \<and> d \<notin> insert k D) ds) + count_list ds k
     = length (filter (\<lambda>d. d \<in> A \<and> d \<notin> D) ds)"
  by (induction ds) auto

lemma pending_insert:
  "k \<in> t_id ` set ts \<Longrightarrow> k \<notin> D \<Longrightarrow>
   pending ts (insert k D) t + count_list (dependencies t) k = pending ts D t"
  unfolding pending_def by (rule filter_insert_count)

lemma pending_zero:
  "pending ts D t = 0 \<longleftrightarrow> (\<forall>d \<in> set (dependencies t). d \<in> t_id ` set ts \<longrightarrow> d \<in> D)"
  by (auto simp: pending_def filter_empty_conv)

lemma count_succs:
  "distinct (map t_id ts) \<Longrightarrow> t \<in> set ts \<Longrightarrow>
   count_list (succs ts k) (t_id t) = count_list (dependencies t) k"
  unfolding succs_def count_list_concat_replicate
  by (rule sum_list_pick)

lemma set_succs:
  "x \<in> set (succs ts k) \<Longrightarrow> \<exists>t \<in> set ts. x = t_id t \<and> k \<in> set (dependencies t)"
  unfolding succs_def by (induction ts) (auto simp: count_list_0_iff split: if_splits)

text \<open>
  The release of the successors \<open>ns\<close>, seen at the counters: when every counter of \<open>X\<close>
  holds what is left to release plus a rest \<open>c\<close>, and the queue holds the ids of \<open>X\<close>
  with nothing left at all, the same is true at the end with nothing left to release.
\<close>

lemma release_counts:
  assumes "release s ns = Inr s'"
    and "\<forall>t \<in> set ts. t_id t \<in> X \<longrightarrow>
           map_of (incomingDegree s) (t_id t) = Some (int (c t + count_list ns (t_id t))) \<and>
           (t_id t \<in> set (queue s) \<longleftrightarrow> c t + count_list ns (t_id t) = 0)"
    and "set ns \<subseteq> X" and "X \<subseteq> t_id ` set ts"
    and "distinct (queue s)" and "set (queue s) \<subseteq> X"
  shows "(\<forall>t \<in> set ts. t_id t \<in> X \<longrightarrow>
           map_of (incomingDegree s') (t_id t) = Some (int (c t)) \<and>
           (t_id t \<in> set (queue s') \<longleftrightarrow> c t = 0)) \<and>
         distinct (queue s') \<and> set (queue s') \<subseteq> X"
  using assms
proof (induction ns arbitrary: s)
  case Nil
  then show ?case by simp
next
  case (Cons n ns)
  from Cons.prems(3,4) obtain tn where tn: "tn \<in> set ts" "t_id tn = n" "n \<in> X" by auto
  let ?d = "int (c tn + count_list (n # ns) n)"
  from Cons.prems(2) tn have d: "map_of (incomingDegree s) n = Some ?d"
    and nq: "n \<notin> set (queue s)" by auto
  let ?s1 = "s\<lparr>incomingDegree := AList.update n (?d - 1) (incomingDegree s)\<rparr>"
  have J1: "map_of (incomingDegree ?s1) (t_id t) = Some (int (c t + count_list ns (t_id t)))"
    if "t \<in> set ts" "t_id t \<in> X" for t
  proof (cases "t_id t = n")
    case True
    from Cons.prems(2) that True d have "int (c t + count_list (n # ns) n) = ?d" by auto
    with True show ?thesis by (simp add: update_conv')
  next
    case False
    with Cons.prems(2) that show ?thesis by (auto simp: update_conv')
  qed
  have J2: "(t_id t \<in> set (queue s)) = (c t + count_list ns (t_id t) = 0)"
    if "t \<in> set ts" "t_id t \<in> X" "t_id t \<noteq> n" for t
    using Cons.prems(2) that by auto
  show ?case
  proof (cases "?d - 1 = 0")
    case True
    with Cons.prems(1) d obtain q where q: "sortQueue ?s1 (queue ?s1 @ [n]) = Inr q"
      and r: "release (?s1\<lparr>queue := q\<rparr>) ns = Inr s'"
      by (auto simp: Let_def split: sum.splits)
    have sq: "set q = insert n (set (queue s))" using sortQueue_set[OF q] by simp
    have dq: "distinct q" using sortQueue_distinct[OF q] nq Cons.prems(5) by simp
    have "\<forall>t \<in> set ts. t_id t \<in> X \<longrightarrow>
           map_of (incomingDegree (?s1\<lparr>queue := q\<rparr>)) (t_id t)
             = Some (int (c t + count_list ns (t_id t))) \<and>
           (t_id t \<in> set (queue (?s1\<lparr>queue := q\<rparr>)) \<longleftrightarrow> c t + count_list ns (t_id t) = 0)"
    proof (intro ballI impI)
      fix t assume t: "t \<in> set ts" "t_id t \<in> X"
      show "map_of (incomingDegree (?s1\<lparr>queue := q\<rparr>)) (t_id t)
             = Some (int (c t + count_list ns (t_id t))) \<and>
           (t_id t \<in> set (queue (?s1\<lparr>queue := q\<rparr>)) \<longleftrightarrow> c t + count_list ns (t_id t) = 0)"
      proof (cases "t_id t = n")
        case True
        from J1[OF t] d True have "int (c t + count_list ns n) = ?d - 1"
          by (simp add: update_conv')
        with \<open>?d - 1 = 0\<close> True J1[OF t] sq show ?thesis by simp
      next
        case False
        with J1[OF t] J2[OF t] sq show ?thesis by simp
      qed
    qed
    from Cons.IH[OF r this] Cons.prems(3,4,6) dq sq tn show ?thesis by simp
  next
    case False
    with Cons.prems(1) d have r: "release ?s1 ns = Inr s'"
      by (auto simp: Let_def)
    have "\<forall>t \<in> set ts. t_id t \<in> X \<longrightarrow>
           map_of (incomingDegree ?s1) (t_id t) = Some (int (c t + count_list ns (t_id t))) \<and>
           (t_id t \<in> set (queue ?s1) \<longleftrightarrow> c t + count_list ns (t_id t) = 0)"
    proof (intro ballI impI)
      fix t assume t: "t \<in> set ts" "t_id t \<in> X"
      show "map_of (incomingDegree ?s1) (t_id t) = Some (int (c t + count_list ns (t_id t))) \<and>
           (t_id t \<in> set (queue ?s1) \<longleftrightarrow> c t + count_list ns (t_id t) = 0)"
      proof (cases "t_id t = n")
        case True
        from J1[OF t] d True have "int (c t + count_list ns n) = ?d - 1"
          by (simp add: update_conv')
        with False have "int (c t + count_list ns n) \<noteq> 0" by simp
        then have "c t + count_list ns n \<noteq> 0" by (simp del: of_nat_add)
        with True J1[OF t] nq show ?thesis by simp
      next
        case False
        with J1[OF t] J2[OF t] show ?thesis by simp
      qed
    qed
    from Cons.IH[OF r this] Cons.prems(3,4,5,6) show ?thesis by simp
  qed
qed


text \<open>
  The invariant of the topological processing, for task ids that are pairwise different:
  the clone of the \<open>i\<close>-th task is the cell \<open>b + i\<close>; no id is processed or queued twice;
  the counter of an unprocessed task is the number of its unprocessed dependencies in
  the task set, and the task is queued exactly when that number is zero; the
  dependencies of a processed task that are in the task set were processed before it.
\<close>

definition kahn :: "task list \<Rightarrow> nat \<Rightarrow> state \<Rightarrow> bool" where
  "kahn ts b s \<longleftrightarrow>
     (\<forall>i < length ts. taskMap s (t_id (ts ! i)) = Some (b + i)) \<and>
     (\<forall>k \<in> t_id ` set ts. outgoingEdges s k = Some (succs ts k)) \<and>
     distinct (doneIds s) \<and> set (doneIds s) \<subseteq> t_id ` set ts \<and>
     distinct (queue s) \<and> set (queue s) \<subseteq> t_id ` set ts - set (doneIds s) \<and>
     (\<forall>t \<in> set ts. t_id t \<notin> set (doneIds s) \<longrightarrow>
        map_of (incomingDegree s) (t_id t) = Some (int (pending ts (set (doneIds s)) t)) \<and>
        (t_id t \<in> set (queue s) \<longleftrightarrow> pending ts (set (doneIds s)) t = 0)) \<and>
     (\<forall>j < length (doneIds s). \<forall>t \<in> set ts. t_id t = doneIds s ! j \<longrightarrow>
        (\<forall>d \<in> set (dependencies t). d \<in> t_id ` set ts \<longrightarrow> d \<in> set (take j (doneIds s))))"

lemma doneIds_framed:
  assumes "framed h0 ts s"
  shows "doneIds s = map (\<lambda>r. t_id (ts ! (r - length h0))) (optimizedRefs s)"
  unfolding doneIds_def
proof (rule map_cong[OF refl])
  fix r assume "r \<in> set (optimizedRefs s)"
  with assms have b: "length h0 \<le> r" "r - length h0 < length ts"
    by (auto simp: framed_def)
  with assms have "sameStatics (heap s ! (length h0 + (r - length h0))) (ts ! (r - length h0))"
    unfolding framed_def by blast
  with b show "t_id (heap s ! r) = t_id (ts ! (r - length h0))"
    by (simp add: sameStatics_def)
qed

lemma kahn_done_closed:
  assumes "kahn ts b s" and "t \<in> set ts" and "t_id t \<in> set (doneIds s)"
  shows "pending ts (set (doneIds s)) t = 0"
proof -
  from assms(3) obtain j where j: "j < length (doneIds s)" "doneIds s ! j = t_id t"
    by (auto simp: in_set_conv_nth)
  with assms(1,2) have "\<forall>d \<in> set (dependencies t). d \<in> t_id ` set ts \<longrightarrow> d \<in> set (take j (doneIds s))"
    unfolding kahn_def by metis
  then show ?thesis
    by (auto simp: pending_zero dest: in_set_takeD)
qed

lemma kahn_step:
  assumes dist: "distinct (map t_id ts)" and f: "framed h0 ts s"
    and kh: "kahn ts (length h0) s"
    and ne: "queue s \<noteq> []" and st: "step z project allUsers s = Inr s'"
  shows "kahn ts (length h0) s'"
proof -
  let ?I = "t_id ` set ts"
  let ?D = "set (doneIds s)"
  from ne obtain k rest where q: "queue s = k # rest" by (cases "queue s") auto
  from step_Inr[OF q st] obtain r s1 where r: "taskMap s k = Some r"
    and a: "assignTask z project allUsers (s\<lparr>queue := rest\<rparr>) r = Inr s1"
    and e: "case outgoingEdges s k of None \<Rightarrow> s' = s1 | Some ns \<Rightarrow> release s1 ns = Inr s'"
    by blast
  from kh q have kin: "k \<in> ?I" "k \<notin> ?D" "k \<notin> set rest" "distinct rest"
    "set rest \<subseteq> ?I - ?D"
    by (auto simp: kahn_def)
  from kh kin(1) have oe: "outgoingEdges s k = Some (succs ts k)"
    unfolding kahn_def by blast
  with e have rel: "release s1 (succs ts k) = Inr s'" by simp
  from f r have rb: "length h0 \<le> r" "t_id (ts ! (r - length h0)) = k"
    by (auto simp: framed_def)
  have f1: "framed h0 ts s1"
    by (rule framed_assignTask[OF _ _ a]) (use f r in simp_all)
  from assignTask_Inr[OF a] have o1: "optimizedRefs s1 = optimizedRefs s @ [r]" by auto
  note fr = assignTask_frame[OF a]
  have d1: "doneIds s1 = doneIds s @ [k]"
    using rb by (simp add: doneIds_framed[OF f1] doneIds_framed[OF f] o1)
  let ?D' = "insert k ?D"
  let ?X = "?I - ?D'"
  have pk: "pending ts ?D t = 0" if "t \<in> set ts" "t_id t = k" for t
    using kh that kin(2) q by (auto simp: kahn_def)
  have pre: "\<forall>t \<in> set ts. t_id t \<in> ?X \<longrightarrow>
           map_of (incomingDegree s1) (t_id t)
             = Some (int (pending ts ?D' t + count_list (succs ts k) (t_id t))) \<and>
           (t_id t \<in> set (queue s1) \<longleftrightarrow> pending ts ?D' t + count_list (succs ts k) (t_id t) = 0)"
  proof (intro ballI impI)
    fix t assume t: "t \<in> set ts" "t_id t \<in> ?X"
    have p: "pending ts ?D' t + count_list (succs ts k) (t_id t) = pending ts ?D t"
      using pending_insert[OF kin(1,2), of t] count_succs[OF dist t(1), of k] by simp
    from kh t have "map_of (incomingDegree s) (t_id t) = Some (int (pending ts ?D t))"
      "(t_id t \<in> set (queue s)) = (pending ts ?D t = 0)"
      by (auto simp: kahn_def)
    with t q fr show "map_of (incomingDegree s1) (t_id t)
             = Some (int (pending ts ?D' t + count_list (succs ts k) (t_id t))) \<and>
           (t_id t \<in> set (queue s1) \<longleftrightarrow> pending ts ?D' t + count_list (succs ts k) (t_id t) = 0)"
      unfolding p by auto
  qed
  have sub: "set (succs ts k) \<subseteq> ?X"
  proof
    fix x assume "x \<in> set (succs ts k)"
    from set_succs[OF this] obtain t where t: "t \<in> set ts" "x = t_id t" "k \<in> set (dependencies t)"
      by blast
    have "pending ts ?D t \<noteq> 0"
      using t(3) kin(1,2) by (auto simp: pending_zero)
    with pk[OF t(1)] kahn_done_closed[OF kh t(1)] t show "x \<in> ?X" by auto
  qed
  from release_counts[OF rel pre sub] kin fr
  have post: "(\<forall>t \<in> set ts. t_id t \<in> ?X \<longrightarrow>
           map_of (incomingDegree s') (t_id t) = Some (int (pending ts ?D' t)) \<and>
           (t_id t \<in> set (queue s') \<longleftrightarrow> pending ts ?D' t = 0))"
    "distinct (queue s')" "set (queue s') \<subseteq> ?X"
    by auto
  note rf = release_frame[OF rel]
  have d': "doneIds s' = doneIds s @ [k]"
    using rf d1 by (simp add: doneIds_def)
  have ord: "\<forall>d \<in> set (dependencies t). d \<in> ?I \<longrightarrow> d \<in> set (take j (doneIds s'))"
    if "j < length (doneIds s')" "t \<in> set ts" "t_id t = doneIds s' ! j" for j t
  proof (cases "j < length (doneIds s)")
    case True
    with kh that show ?thesis
      unfolding d' kahn_def by (simp add: nth_append)
  next
    case False
    with that have j: "j = length (doneIds s)" "t_id t = k" by (auto simp: d' nth_append)
    from pk[OF that(2) j(2)] show ?thesis
      by (auto simp: pending_zero d' j)
  qed
  show ?thesis
    unfolding kahn_def
  proof (intro conjI)
    show "\<forall>i<length ts. taskMap s' (t_id (ts ! i)) = Some (length h0 + i)"
      using kh rf fr unfolding kahn_def by simp
    show "\<forall>k\<in>?I. outgoingEdges s' k = Some (succs ts k)"
      using kh rf fr unfolding kahn_def by simp
    show "distinct (doneIds s')"
      using kh kin by (simp add: d' kahn_def)
    show "set (doneIds s') \<subseteq> ?I"
      using kh kin by (simp add: d' kahn_def)
    show "distinct (queue s')" by (rule post(2))
    show "set (queue s') \<subseteq> ?I - set (doneIds s')"
      using post(3) by (simp add: d')
    show "\<forall>t\<in>set ts. t_id t \<notin> set (doneIds s') \<longrightarrow>
       map_of (incomingDegree s') (t_id t) = Some (int (pending ts (set (doneIds s')) t)) \<and>
       (t_id t \<in> set (queue s')) = (pending ts (set (doneIds s')) t = 0)"
      using post(1) by (simp add: d')
    show "\<forall>j<length (doneIds s'). \<forall>t\<in>set ts. t_id t = doneIds s' ! j \<longrightarrow>
       (\<forall>d\<in>set (dependencies t). d \<in> ?I \<longrightarrow> d \<in> set (take j (doneIds s')))"
      using ord by blast
  qed
qed

lemma kahn_prepare:
  assumes dist: "distinct (map t_id ts)"
    and p: "prepare z today project ts allUsers os = Inr s"
  shows "kahn ts (length (ts @ os)) s"
proof -
  let ?I = "t_id ` set ts"
  let ?s0 = "cloneTasks ts (initialState ts os)"
  let ?s1 = "addEdges ts ?s0"
  from p obtain q ua where s: "s = ?s1\<lparr>userAvailability := ua, queue := q\<rparr>"
    and sq: "sortQueue (?s1\<lparr>userAvailability := ua\<rparr>)
               (initialQueue ts (?s1\<lparr>userAvailability := ua\<rparr>)) = Inr q"
    by (auto simp: prepare_def Let_def split: sum.splits)
  have tm0: "taskMap ?s0 d \<noteq> None \<longleftrightarrow> d \<in> ?I" for d
    using cloneTasks_dom[of ts "initialState ts os"] by (auto simp: initialState_def)
  have tm0': "(\<exists>y. taskMap ?s0 d = Some y) \<longleftrightarrow> d \<in> ?I" for d
    using tm0[of d] by auto
  have tm: "taskMap s = taskMap ?s0" by (simp add: s addEdges_frame)
  have deg: "incomingDegree s = incomingDegree ?s1" by (simp add: s)
  have qu: "queue s = q" by (simp add: s)
  have dn: "doneIds s = []"
    by (simp add: doneIds_def s addEdges_frame cloneTasks_frame initialState_def)
  have cnt: "map_of (incomingDegree s) (t_id t) = Some (int (pending ts {} t))"
    and d0: "degreeOr0 (incomingDegree s) (t_id t) = int (pending ts {} t)"
    if t: "t \<in> set ts" for t
  proof -
    have "map_of (incomingDegree ?s0) (t_id t) \<noteq> None"
      using t by (simp add: cloneTasks_incomingDegree)
    from addEdges_keys[OF this] obtain v where v: "map_of (incomingDegree ?s1) (t_id t) = Some v"
      by blast
    have "degreeOr0 (incomingDegree ?s0) (t_id t) = 0"
      using t by (simp add: degreeOr0_def cloneTasks_incomingDegree)
    then have "degreeOr0 (incomingDegree ?s1) (t_id t)
        = int (length (filter (\<lambda>d. taskMap ?s0 d \<noteq> None) (dependencies t)))"
      by (simp add: addEdges_degreeOr0 sum_list_pick[OF dist t])
    then show "degreeOr0 (incomingDegree s) (t_id t) = int (pending ts {} t)"
      by (simp add: deg pending_def tm0')
    with v show "map_of (incomingDegree s) (t_id t) = Some (int (pending ts {} t))"
      by (simp add: deg degreeOr0_def)
  qed
  have iq: "initialQueue ts (?s1\<lparr>userAvailability := ua\<rparr>)
              = map t_id (filter (\<lambda>t. pending ts {} t = 0) ts)"
    unfolding initialQueue_def
    by (rule arg_cong[where f = "map t_id"], rule filter_cong[OF refl])
       (use d0[unfolded deg] in simp)
  have qs: "set q = t_id ` {t \<in> set ts. pending ts {} t = 0}"
    using sortQueue_set[OF sq] by (simp add: iq)
  have qd: "distinct q"
    using sortQueue_distinct[OF sq] dist by (simp add: iq distinct_map_filter)
  have qm: "(t_id t \<in> set q) = (pending ts {} t = 0)" if t: "t \<in> set ts" for t
  proof
    assume "t_id t \<in> set q"
    then obtain t' where t': "t' \<in> set ts" "pending ts {} t' = 0" "t_id t' = t_id t"
      by (auto simp: qs)
    with dist t have "t' = t" by (auto simp: distinct_map inj_on_def)
    with t' show "pending ts {} t = 0" by simp
  next
    assume "pending ts {} t = 0"
    with t show "t_id t \<in> set q" by (auto simp: qs)
  qed
  show ?thesis
    unfolding kahn_def
  proof (intro conjI)
    show "\<forall>i<length ts. taskMap s (t_id (ts ! i)) = Some (length (ts @ os) + i)"
      using cloneTasks_taskMap_distinct[OF dist, of _ "initialState ts os"]
      by (simp add: tm initialState_def)
    show "\<forall>k\<in>?I. outgoingEdges s k = Some (succs ts k)"
    proof
      fix k assume k: "k \<in> ?I"
      then have "outgoingEdges ?s0 k = Some []" by (simp add: cloneTasks_outgoingEdges)
      with tm0[of k] k show "outgoingEdges s k = Some (succs ts k)"
        by (simp add: s addEdges_outgoingEdges succs_def)
    qed
    show "distinct (doneIds s)" "set (doneIds s) \<subseteq> ?I" by (simp_all add: dn)
    show "distinct (queue s)" using qd by (simp add: qu)
    show "set (queue s) \<subseteq> ?I - set (doneIds s)" using qs by (auto simp: qu dn)
    show "\<forall>t\<in>set ts. t_id t \<notin> set (doneIds s) \<longrightarrow>
       map_of (incomingDegree s) (t_id t) = Some (int (pending ts (set (doneIds s)) t)) \<and>
       (t_id t \<in> set (queue s)) = (pending ts (set (doneIds s)) t = 0)"
      using cnt qm by (simp add: dn qu)
    show "\<forall>j<length (doneIds s). \<forall>t\<in>set ts. t_id t = doneIds s ! j \<longrightarrow>
       (\<forall>d\<in>set (dependencies t). d \<in> ?I \<longrightarrow> d \<in> set (take j (doneIds s)))"
      by (simp add: dn)
  qed
qed

text \<open>The state in which the function returns, for pairwise different task ids.\<close>

lemma run_kahn:
  assumes dist: "distinct (map t_id ts)" and r: "run z today project ts allUsers os = Inr s"
  shows "framed (ts @ os) ts s \<and> kahn ts (length (ts @ os)) s \<and> queue s = []"
proof -
  from r obtain s0 where p: "prepare z today project ts allUsers os = Inr s0"
    and l: "loop z project allUsers s0 = Inr s"
    by (auto simp: run_def split: sum.splits)
  let ?P = "\<lambda>s. framed (ts @ os) ts s \<and> kahn ts (length (ts @ os)) s"
  have "?P s \<and> queue s = []"
  proof (rule loop_invariant[where P = ?P, OF _ _ l])
    show "?P s0" using framed_prepare[OF p] kahn_prepare[OF dist p] by simp
    show "\<forall>s s1. ?P s \<and> queue s \<noteq> [] \<and> step z project allUsers s = Inr s1 \<longrightarrow> ?P s1"
      using framed_step kahn_step[OF dist] by blast
  qed
  then show ?thesis by simp
qed

text \<open>The dependency graph restricted to the task set: an edge from a dependency to the
  task that names it.\<close>

definition dependsOn :: "task list \<Rightarrow> (string \<times> string) set" where
  "dependsOn ts = {(d, t_id t) | d t. t \<in> set ts \<and> d \<in> set (dependencies t) \<and> d \<in> t_id ` set ts}"

text \<open>A task is blocked when a cycle of the graph reaches it.\<close>

definition blocked :: "task list \<Rightarrow> string \<Rightarrow> bool" where
  "blocked ts k \<longleftrightarrow> (\<exists>c. (c, c) \<in> (dependsOn ts)\<^sup>+ \<and> (c, k) \<in> (dependsOn ts)\<^sup>*)"

lemma finite_dependsOn: "finite (dependsOn ts)"
proof (rule finite_subset)
  show "dependsOn ts \<subseteq> (t_id ` set ts) \<times> (t_id ` set ts)"
    by (auto simp: dependsOn_def)
qed simp

lemma kahn_before:
  assumes kh: "kahn ts b s" and e: "(a, k) \<in> (dependsOn ts)\<^sup>+"
    and j: "j < length (doneIds s)" "doneIds s ! j = k"
  shows "\<exists>i < j. doneIds s ! i = a"
  using e j
proof (induction arbitrary: j rule: trancl_induct)
  case (base y)
  then obtain t where t: "t \<in> set ts" "a \<in> set (dependencies t)" "a \<in> t_id ` set ts" "y = t_id t"
    by (auto simp: dependsOn_def)
  with kh base have "a \<in> set (take j (doneIds s))"
    unfolding kahn_def by metis
  then show ?case by (auto simp: in_set_conv_nth)
next
  case (step y z)
  then obtain t where t: "t \<in> set ts" "y \<in> set (dependencies t)" "y \<in> t_id ` set ts" "z = t_id t"
    by (auto simp: dependsOn_def)
  with kh step.prems have "y \<in> set (take j (doneIds s))"
    unfolding kahn_def by metis
  then obtain i where i: "i < j" "doneIds s ! i = y"
    by (auto simp: in_set_conv_nth)
  with step.prems have "i < length (doneIds s)" by simp
  from step.IH[OF this i(2)] obtain i' where "i' < i" "doneIds s ! i' = a" by blast
  with i(1) have "i' < j" "doneIds s ! i' = a" by simp_all
  then show ?case by blast
qed

lemma kahn_blocked_not_done:
  assumes kh: "kahn ts b s" and bl: "blocked ts k"
  shows "k \<notin> set (doneIds s)"
proof
  assume "k \<in> set (doneIds s)"
  then obtain j where j: "j < length (doneIds s)" "doneIds s ! j = k"
    by (auto simp: in_set_conv_nth)
  from bl obtain c where c: "(c, c) \<in> (dependsOn ts)\<^sup>+" "(c, k) \<in> (dependsOn ts)\<^sup>*"
    by (auto simp: blocked_def)
  have "\<exists>i < length (doneIds s). doneIds s ! i = c"
  proof (cases "c = k")
    case True
    with j show ?thesis by auto
  next
    case False
    with c(2) have "(c, k) \<in> (dependsOn ts)\<^sup>+" by (simp add: rtrancl_eq_or_trancl)
    from kahn_before[OF kh this j] obtain i where "i < j" "doneIds s ! i = c" by blast
    with j(1) have "i < length (doneIds s)" "doneIds s ! i = c" by simp_all
    then show ?thesis by blast
  qed
  then obtain i where i: "i < length (doneIds s)" "doneIds s ! i = c" by blast
  from kahn_before[OF kh c(1) i] obtain i' where "i' < i" "doneIds s ! i' = c" by blast
  with i kh show False
    unfolding kahn_def by (auto simp: distinct_conv_nth)
qed

lemma kahn_not_done_blocked:
  assumes kh: "kahn ts b s" and q: "queue s = []"
    and k: "k \<in> t_id ` set ts" "k \<notin> set (doneIds s)"
  shows "blocked ts k"
proof (rule ccontr)
  assume nb: "\<not> blocked ts k"
  let ?A = "{a. (a, k) \<in> (dependsOn ts)\<^sup>*}"
  let ?R = "dependsOn ts \<inter> ?A \<times> ?A"
  let ?U = "(t_id ` set ts - set (doneIds s)) \<inter> ?A"
  have "acyclic ?R"
  proof (rule acyclicI, intro allI notI)
    fix c assume "(c, c) \<in> ?R\<^sup>+"
    then have "(c, c) \<in> (dependsOn ts)\<^sup>+" "c \<in> ?A"
      by (auto dest: trancl_mono[of _ ?R "dependsOn ts"] tranclD)
    with nb show False by (auto simp: blocked_def)
  qed
  moreover have "finite ?R" using finite_dependsOn by simp
  ultimately have "wf ?R" by (rule finite_acyclic_wf[rotated])
  moreover from k have "k \<in> ?U" by simp
  ultimately obtain z where z: "z \<in> ?U" "\<And>y. (y, z) \<in> ?R \<Longrightarrow> y \<notin> ?U"
    by (rule wfE_min) blast
  from z(1) obtain t where t: "t \<in> set ts" "t_id t = z" by auto
  with kh q z(1) have "pending ts (set (doneIds s)) t \<noteq> 0"
    unfolding kahn_def by auto
  then obtain d where d: "d \<in> set (dependencies t)" "d \<in> t_id ` set ts" "d \<notin> set (doneIds s)"
    by (auto simp: pending_zero)
  with t have e: "(d, z) \<in> dependsOn ts" by (auto simp: dependsOn_def)
  with z(1) have "d \<in> ?A" by (auto intro: converse_rtrancl_into_rtrancl)
  with e z(1) d have "(d, z) \<in> ?R" "d \<in> ?U" by auto
  with z(2) show False by blast
qed

subsection \<open>Which tasks are output\<close>

lemma result_ids: "map t_id (optimizedTasks (resultOf s)) = doneIds s"
  by (simp add: resultOf_def doneIds_def)

lemma result_ids_set: "t_id ` set (optimizedTasks (resultOf s)) = set (doneIds s)"
  by (simp add: result_ids[symmetric])


lemma run_done_ids:
  assumes dist: "distinct (map t_id ts)" and r: "run z today project ts allUsers os = Inr s"
  shows "distinct (doneIds s) \<and> set (doneIds s) = {k \<in> t_id ` set ts. \<not> blocked ts k}"
proof -
  from run_kahn[OF dist r] have kh: "kahn ts (length (ts @ os)) s" and q: "queue s = []"
    by simp_all
  from kh have "distinct (doneIds s)" "set (doneIds s) \<subseteq> t_id ` set ts"
    by (simp_all add: kahn_def)
  with kahn_blocked_not_done[OF kh] kahn_not_done_blocked[OF kh q] show ?thesis
    by blast
qed

subsection \<open>Dates of the processed tasks\<close>

lemma maxDate_ge: "d1 \<le> maxDate d1 d2" "d2 \<le> maxDate d1 d2"
  by (simp_all add: maxDate_def)

lemma floorOf_queue [simp]: "floorOf z (s\<lparr>queue := q\<rparr>) d ds = floorOf z s d ds"
  by (induction ds arbitrary: d) (auto cong: option.case_cong)

lemma floorOf_ge_floor: "d0 \<le> floorOf z s d0 ds"
proof (induction ds arbitrary: d0)
  case Nil
  then show ?case by simp
next
  case (Cons a ds)
  let ?d1 = "case taskMap s a of None \<Rightarrow> d0
             | Some r \<Rightarrow> maxDate d0 (endDay z (startDate (heap s ! r)) (duration (heap s ! r)))"
  have "d0 \<le> ?d1" by (simp add: maxDate_ge split: option.splits)
  also have "?d1 \<le> floorOf z s ?d1 ds" by (rule Cons.IH)
  finally show ?case by simp
qed




text \<open>What one iteration does to the store and the output, for pairwise different ids.\<close>

lemma kahn_step_effect:
  assumes dist: "distinct (map t_id ts)" and f: "framed h0 ts s"
    and kh: "kahn ts (length h0) s"
    and q: "queue s = k # rest" and st: "step z project allUsers s = Inr s'"
  shows "\<exists>i bestUser cs task' ua'.
           i < length ts \<and> t_id (ts ! i) = k \<and> k \<notin> set (doneIds s) \<and>
           pending ts (set (doneIds s)) (ts ! i) = 0 \<and>
           chooseUser allUsers (userAvailability s)
             (floorOf z s (p_startDate project) (dependencies (ts ! i)))
             (heap s ! (length h0 + i)) = Inr (bestUser, cs) \<and>
           commitOf z project (userAvailability s)
             (floorOf z s (p_startDate project) (dependencies (ts ! i))) bestUser
             (heap s ! (length h0 + i)) = (task', ua') \<and>
           heap s' = (heap s)[length h0 + i := task'] \<and>
           userAvailability s' = ua' \<and>
           optimizedRefs s' = optimizedRefs s @ [length h0 + i] \<and>
           conflictLog s' = conflictLog s @ cs \<and>
           doneIds s' = doneIds s @ [k] \<and>
           floorOK z s (dependencies (ts ! i)) \<and>
           commitOK z project (userAvailability s)
             (floorOf z s (p_startDate project) (dependencies (ts ! i))) bestUser
             (heap s ! (length h0 + i))"
proof -
  from step_Inr[OF q st] obtain r s1 where r: "taskMap s k = Some r"
    and a: "assignTask z project allUsers (s\<lparr>queue := rest\<rparr>) r = Inr s1"
    and e: "case outgoingEdges s k of None \<Rightarrow> s' = s1 | Some ns \<Rightarrow> release s1 ns = Inr s'"
    by blast
  from kh q have kin: "k \<in> t_id ` set ts" "k \<notin> set (doneIds s)"
    by (auto simp: kahn_def)
  then obtain i where i: "i < length ts" "t_id (ts ! i) = k"
    by (auto simp: in_set_conv_nth)
  with kh r have ri: "r = length h0 + i" by (auto simp: kahn_def)
  from kh kin i q have p0: "pending ts (set (doneIds s)) (ts ! i) = 0"
    unfolding kahn_def by (metis list.set_intros(1) nth_mem)
  from f i have "sameStatics (heap s ! (length h0 + i)) (ts ! i)" by (simp add: framed_def)
  then have dp: "dependencies (heap s ! r) = dependencies (ts ! i)"
    by (simp add: ri sameStatics_def)
  from assignTask_Inr[OF a] dp obtain bestUser cs task' ua' where
    c: "chooseUser allUsers (userAvailability s)
             (floorOf z s (p_startDate project) (dependencies (ts ! i)))
             (heap s ! r) = Inr (bestUser, cs)"
    "commitOf z project (userAvailability s)
             (floorOf z s (p_startDate project) (dependencies (ts ! i))) bestUser
             (heap s ! r) = (task', ua')"
    and s1: "s1 = s\<lparr>queue := rest, heap := (heap s)[r := task'], userAvailability := ua',
            optimizedRefs := optimizedRefs s @ [r], conflictLog := conflictLog s @ cs\<rparr>"
    and ok: "floorOK z (s\<lparr>queue := rest\<rparr>) (dependencies (ts ! i))"
      "commitOK z project (userAvailability s)
             (floorOf z s (p_startDate project) (dependencies (ts ! i))) bestUser
             (heap s ! r)"
    by auto
  from ok(1) have ok1: "floorOK z s (dependencies (ts ! i))" by (simp add: floorOK_def)
  from kh kin(1) have "outgoingEdges s k = Some (succs ts k)" unfolding kahn_def by blast
  with e have "release s1 (succs ts k) = Inr s'" by simp
  note rf = release_frame[OF this]
  have f': "framed h0 ts s'" by (rule framed_step[OF f _ st]) (simp add: q)
  have o': "optimizedRefs s' = optimizedRefs s @ [r]" using rf by (simp add: s1)
  have "doneIds s' = doneIds s @ [k]"
    using i by (simp add: doneIds_framed[OF f'] doneIds_framed[OF f] o' ri)
  with i kin p0 c rf o' ok1 ok(2) show ?thesis
    unfolding ri by (intro exI[of _ i] exI[of _ bestUser] exI[of _ cs] exI[of _ task'] exI[of _ ua'])
      (simp add: s1 ri)
qed





text \<open>An output task is the clone of an input task whose id is among the processed.\<close>

lemma output_task:
  assumes f: "framed h0 ts s" and t: "t \<in> set (optimizedTasks (resultOf s))"
  shows "\<exists>i < length ts. t = heap s ! (length h0 + i) \<and> t_id (ts ! i) \<in> set (doneIds s) \<and>
           sameStatics t (ts ! i)"
proof -
  from t obtain r where r: "r \<in> set (optimizedRefs s)" "t = heap s ! r"
    by (auto simp: resultOf_def)
  with f have b: "length h0 \<le> r" "r - length h0 < length ts" by (auto simp: framed_def)
  with f have "sameStatics (heap s ! (length h0 + (r - length h0))) (ts ! (r - length h0))"
    unfolding framed_def by blast
  moreover from r(1) have "t_id (ts ! (r - length h0)) \<in> set (doneIds s)"
    by (auto simp: doneIds_framed[OF f])
  ultimately show ?thesis
    using b r by (intro exI[of _ "r - length h0"]) simp
qed

lemma output_of_done:
  assumes f: "framed h0 ts s" and kh: "kahn ts (length h0) s"
    and i: "i < length ts" "t_id (ts ! i) \<in> set (doneIds s)"
  shows "heap s ! (length h0 + i) \<in> set (optimizedTasks (resultOf s))"
proof -
  from i(2) obtain r where r: "r \<in> set (optimizedRefs s)" "t_id (ts ! (r - length h0)) = t_id (ts ! i)"
    by (auto simp: doneIds_framed[OF f])
  with f have b: "length h0 \<le> r" "r - length h0 < length ts" by (auto simp: framed_def)
  from kh b(2) i(1) r(2) have "length h0 + (r - length h0) = length h0 + i"
    unfolding kahn_def by (metis option.inject)
  with b have "r = length h0 + i" by simp
  with r(1) show ?thesis by (auto simp: resultOf_def)
qed

subsection \<open>The processing of one task\<close>

text \<open>The conflict strings of a task, after the words of the specification: one for a
  required specialty that no user satisfies, none otherwise.\<close>

definition conflictsOf :: "user list \<Rightarrow> task \<Rightarrow> string list" where
  "conflictsOf allUsers t =
     (case requiredSpecialty t of
        None \<Rightarrow> []
      | Some x \<Rightarrow>
          if x \<noteq> [] \<and> filter (satisfies x) allUsers = []
          then [conflictMessage x (name t)] else [])"

text \<open>The booking of a scheduled task on the timeline of its assignee: the cursor is the
  day that \<^verbatim>\<open>addDays\<close> gives from the \<^verbatim>\<open>startDate\<close> and the \<^verbatim>\<open>duration\<close> of the task.\<close>

definition book :: "zone \<Rightarrow> task \<Rightarrow> (string \<rightharpoonup> date) \<Rightarrow> (string \<rightharpoonup> date)" where
  "book z t ua =
     (case assignedTo t of
        None \<Rightarrow> ua
      | Some u \<Rightarrow>
          if u = [] then ua else ua(u \<mapsto> endDay z (startDate t) (duration t)))"

text \<open>The start of a task with floor \<open>fl\<close> and final assignee \<open>a\<close>, for the availability
  \<open>ua\<close> found when it is processed.\<close>

definition startOf :: "project \<Rightarrow> (string \<rightharpoonup> date) \<Rightarrow> date \<Rightarrow> string option \<Rightarrow> date" where
  "startOf project ua fl a =
     (case a of
        None \<Rightarrow> fl
      | Some u \<Rightarrow>
          if u = [] then fl
          else maxDate fl (case ua u of None \<Rightarrow> p_startDate project | Some c \<Rightarrow> c))"

lemma chooseUser_conflicts:
  "chooseUser allUsers ua fl task = Inr (bu, cs) \<Longrightarrow> cs = conflictsOf allUsers task"
  unfolding chooseUser_def conflictsOf_def
  by (auto split: option.splits if_splits list.splits sum.splits)

lemma hd_sort_key_in:
  assumes "xs \<noteq> []"
  shows "hd (sort_key f xs) \<in> set xs"
proof -
  from assms have "sort_key f xs \<noteq> []" by (metis length_0_conv length_sort)
  then have "hd (sort_key f xs) \<in> set (sort_key f xs)" by (rule hd_in_set)
  then show ?thesis by simp
qed

lemma chooseUser_from:
  assumes "chooseUser allUsers ua fl task = Inr (bu, cs)"
  shows "bu = assignedTo task \<or> (\<exists>c \<in> set allUsers. bu = Some (u_id c))"
proof (cases "requiredSpecialty task")
  case None
  with assms show ?thesis by (simp add: chooseUser_def)
next
  case (Some x)
  show ?thesis
  proof (cases "x = [] \<or> filter (satisfies x) allUsers = []")
    case True
    with assms Some show ?thesis by (auto simp: chooseUser_def split: if_splits)
  next
    case False
    then obtain c cs' where f: "filter (satisfies x) allUsers = c # cs'"
      by (cases "filter (satisfies x) allUsers") auto
    with assms Some False obtain l where l: "sortCandidates ua (c # cs') = Inr l"
      and b: "bu = assignedTo task \<or> bu = Some (u_id (hd l))"
      by (auto simp: chooseUser_def split: sum.splits if_splits)
    from l have "l = sort_key (\<lambda>u. the (ua (u_id u))) (c # cs')"
      by (auto simp: sortCandidates_def split: if_splits)
    then have "hd l \<in> set (c # cs')" using hd_sort_key_in[of "c # cs'"] by simp
    with f have "hd l \<in> set allUsers" by (metis filter_is_subset subsetD)
    with b show ?thesis by blast
  qed
qed

text \<open>No user has the empty string as id (the empty string is falsy at line 146).\<close>

definition userIdsNonEmpty :: "user list \<Rightarrow> bool" where
  "userIdsNonEmpty allUsers \<longleftrightarrow> (\<forall>u \<in> set allUsers. u_id u \<noteq> [])"

lemma process_effect:
  assumes ne: "userIdsNonEmpty allUsers"
    and c: "chooseUser allUsers ua fl task = Inr (bu, cs)"
    and m: "commitOf z project ua fl bu task = (task', ua')"
  shows "ua' = book z task' ua \<and> startDate task' = startOf project ua fl (assignedTo task') \<and>
         (truthy bu \<longrightarrow> assignedTo task' = bu) \<and>
         (\<not> truthy bu \<longrightarrow> assignedTo task' = assignedTo task \<and> \<not> truthy (assignedTo task))"
proof (cases "truthy bu")
  case True
  then obtain b where b: "bu = Some b" "b \<noteq> []" by (cases bu) auto
  with m have "task' = task\<lparr>assignedTo := Some b,
      startDate := maxDate fl (case ua b of None \<Rightarrow> p_startDate project | Some d \<Rightarrow> d)\<rparr>"
    "ua' = ua(b \<mapsto> endDay z (maxDate fl (case ua b of None \<Rightarrow> p_startDate project | Some d \<Rightarrow> d))
                     (duration task))"
    by (auto simp: commitOf_def Let_def)
  with b show ?thesis by (simp add: book_def startOf_def)
next
  case False
  from chooseUser_from[OF c] ne False have a: "bu = assignedTo task"
    by (auto simp: userIdsNonEmpty_def)
  from False m have "task' = task\<lparr>startDate := fl\<rparr>" "ua' = ua"
    by (cases bu; auto simp: commitOf_def)+
  with False a show ?thesis
    by (cases "assignedTo task") (auto simp: book_def startOf_def)
qed

lemma process_range:
  assumes ne: "userIdsNonEmpty allUsers"
    and c: "chooseUser allUsers ua fl task = Inr (bu, cs)"
    and m: "commitOf z project ua fl bu task = (task', ua')"
    and ok: "commitOK z project ua fl bu task"
    and t: "truthy (assignedTo task')"
  shows "inRange z (startDate task') (duration task')"
proof (cases "truthy bu")
  case True
  then obtain b where b: "bu = Some b" "b \<noteq> []" by (cases bu) auto
  with m have "task' = task\<lparr>assignedTo := Some b,
      startDate := maxDate fl (case ua b of None \<Rightarrow> p_startDate project | Some d \<Rightarrow> d)\<rparr>"
    by (auto simp: commitOf_def Let_def)
  with ok b show ?thesis by (simp add: commitOK_def)
next
  case False
  from process_effect[OF ne c m] False t show ?thesis by simp
qed

subsection \<open>The output during the loop\<close>

text \<open>The tasks behind the references of the output.\<close>

definition outputOf :: "state \<Rightarrow> task list" where
  "outputOf s = map (\<lambda>r. heap s ! r) (optimizedRefs s)"

lemma result_output: "optimizedTasks (resultOf s) = outputOf s"
  by (simp add: resultOf_def outputOf_def)

lemma doneIds_output: "doneIds s = map t_id (outputOf s)"
  by (simp add: doneIds_def outputOf_def)

lemma framed_taskMap:
  assumes "framed h0 ts s" and "taskMap s k = Some r"
  shows "length h0 \<le> r" "r - length h0 < length ts" "t_id (ts ! (r - length h0)) = k"
proof -
  from assms have "length h0 \<le> r \<and> r < length h0 + length ts \<and> t_id (ts ! (r - length h0)) = k"
    unfolding framed_def by blast
  then show "length h0 \<le> r" "r - length h0 < length ts" "t_id (ts ! (r - length h0)) = k"
    by auto
qed

lemma floorOf_cong:
  assumes "taskMap s' = taskMap s"
    and "\<And>d r. d \<in> set ds \<Longrightarrow> taskMap s d = Some r \<Longrightarrow> heap s' ! r = heap s ! r"
  shows "floorOf z s' d0 ds = floorOf z s d0 ds"
  using assms(2)
proof (induction ds arbitrary: d0)
  case Nil
  then show ?case by simp
next
  case (Cons a ds)
  have "(case taskMap s' a of None \<Rightarrow> d0
         | Some r \<Rightarrow> maxDate d0 (endDay z (startDate (heap s' ! r)) (duration (heap s' ! r))))
      = (case taskMap s a of None \<Rightarrow> d0
         | Some r \<Rightarrow> maxDate d0 (endDay z (startDate (heap s ! r)) (duration (heap s ! r))))"
    using Cons.prems[of a] by (simp add: assms(1) split: option.splits)
  moreover have "floorOf z s' d ds = floorOf z s d ds" for d
    using Cons.prems by (intro Cons.IH) auto
  ultimately show ?case by simp
qed

text \<open>One iteration, for pairwise different ids: the head of the queue is the id of an
  unprocessed task whose dependencies in the task set are processed; its clone is
  rewritten and appended to the output; nothing else in the store changes.\<close>

lemma step_output:
  assumes dist: "distinct (map t_id ts)" and f: "framed h0 ts s"
    and kh: "kahn ts (length h0) s"
    and q: "queue s = k # rest" and st: "step z project allUsers s = Inr s'"
  shows "\<exists>i bestUser cs task' ua'.
           i < length ts \<and> t_id (ts ! i) = k \<and> k \<notin> set (doneIds s) \<and>
           pending ts (set (doneIds s)) (ts ! i) = 0 \<and>
           chooseUser allUsers (userAvailability s)
             (floorOf z s (p_startDate project) (dependencies (ts ! i)))
             (heap s ! (length h0 + i)) = Inr (bestUser, cs) \<and>
           commitOf z project (userAvailability s)
             (floorOf z s (p_startDate project) (dependencies (ts ! i))) bestUser
             (heap s ! (length h0 + i)) = (task', ua') \<and>
           heap s' ! (length h0 + i) = task' \<and>
           (\<forall>j. j \<noteq> i \<longrightarrow> heap s' ! (length h0 + j) = heap s ! (length h0 + j)) \<and>
           userAvailability s' = ua' \<and>
           conflictLog s' = conflictLog s @ cs \<and>
           outputOf s' = outputOf s @ [task'] \<and>
           taskMap s' = taskMap s \<and>
           (\<forall>t \<in> set ts. t_id t \<in> set (doneIds s) \<or> t_id t = k \<longrightarrow>
              (\<forall>d0. floorOf z s' d0 (dependencies t) = floorOf z s d0 (dependencies t))) \<and>
           floorOK z s (dependencies (ts ! i)) \<and>
           commitOK z project (userAvailability s)
             (floorOf z s (p_startDate project) (dependencies (ts ! i))) bestUser
             (heap s ! (length h0 + i))"
proof -
  let ?b = "length h0"
  from kahn_step_effect[OF dist f kh q st] obtain i bestUser cs task' ua' where
    i: "i < length ts" "t_id (ts ! i) = k" "k \<notin> set (doneIds s)"
    and p0: "pending ts (set (doneIds s)) (ts ! i) = 0"
    and c: "chooseUser allUsers (userAvailability s)
             (floorOf z s (p_startDate project) (dependencies (ts ! i)))
             (heap s ! (?b + i)) = Inr (bestUser, cs)"
      "commitOf z project (userAvailability s)
             (floorOf z s (p_startDate project) (dependencies (ts ! i))) bestUser
             (heap s ! (?b + i)) = (task', ua')"
    and h': "heap s' = (heap s)[?b + i := task']"
    and e: "userAvailability s' = ua'" "optimizedRefs s' = optimizedRefs s @ [?b + i]"
      "conflictLog s' = conflictLog s @ cs"
    and ok: "floorOK z s (dependencies (ts ! i))"
      "commitOK z project (userAvailability s)
             (floorOf z s (p_startDate project) (dependencies (ts ! i))) bestUser
             (heap s ! (?b + i))"
    by blast
  from f have len: "length (heap s) = ?b + length ts" by (simp add: framed_def)
  have new: "heap s' ! (?b + i) = task'" using i(1) len by (simp add: h')
  have same: "heap s' ! (?b + j) = heap s ! (?b + j)" if "j \<noteq> i" for j
    using that by (simp add: h')
  have old: "heap s' ! r = heap s ! r" if "r \<in> set (optimizedRefs s)" for r
  proof -
    from that have "t_id (ts ! (r - ?b)) \<in> set (doneIds s)"
      by (auto simp: doneIds_framed[OF f])
    with i have "r - ?b \<noteq> i" by auto
    moreover from f that have "?b \<le> r" by (auto simp: framed_def)
    ultimately have "r \<noteq> ?b + i" by auto
    then show ?thesis by (simp add: h')
  qed
  have out: "outputOf s' = outputOf s @ [task']"
    using old new by (simp add: outputOf_def e)
  have tm: "taskMap s' = taskMap s"
  proof -
    from step_Inr[OF q st] obtain r s1 where
      a: "assignTask z project allUsers (s\<lparr>queue := rest\<rparr>) r = Inr s1"
      and x: "case outgoingEdges s k of None \<Rightarrow> s' = s1 | Some ns \<Rightarrow> release s1 ns = Inr s'"
      by blast
    from assignTask_frame[OF a] x show ?thesis
      by (auto split: option.splits dest: release_frame)
  qed
  have es: "floorOf z s' d0 (dependencies t) = floorOf z s d0 (dependencies t)"
    if t: "t \<in> set ts" "t_id t \<in> set (doneIds s) \<or> t_id t = k" for t d0
  proof (rule floorOf_cong[OF tm])
    fix d r assume d: "d \<in> set (dependencies t)" "taskMap s d = Some r"
    have pz: "pending ts (set (doneIds s)) t = 0"
    proof (cases "t_id t \<in> set (doneIds s)")
      case True
      from kahn_done_closed[OF kh t(1) True] show ?thesis .
    next
      case False
      with t(2) i dist t(1) have "t = ts ! i"
        by (auto simp: distinct_map inj_on_def)
      with p0 show ?thesis by simp
    qed
    note r = framed_taskMap[OF f d(2)]
    then have "d \<in> t_id ` set ts" by auto
    with pz d(1) have "d \<in> set (doneIds s)" by (auto simp: pending_zero)
    with i r have "r - ?b \<noteq> i" by auto
    with r(1) have "r \<noteq> ?b + i" by auto
    then show "heap s' ! r = heap s ! r" by (simp add: h')
  qed
  from i p0 c new same e out tm es ok show ?thesis
    by (intro exI[of _ i] exI[of _ bestUser] exI[of _ cs] exI[of _ task'] exI[of _ ua']) blast
qed

subsection \<open>Conflicts and kept assignees\<close>

text \<open>No candidate is looked for (no required specialty) or none is found.\<close>

definition unconstrained :: "user list \<Rightarrow> task \<Rightarrow> bool" where
  "unconstrained allUsers t \<longleftrightarrow>
     (case requiredSpecialty t of
        None \<Rightarrow> True
      | Some x \<Rightarrow> x = [] \<or> filter (satisfies x) allUsers = [])"

lemma chooseUser_unconstrained:
  "unconstrained allUsers task \<Longrightarrow>
   chooseUser allUsers ua fl task = Inr (assignedTo task, conflictsOf allUsers task)"
  by (auto simp: unconstrained_def chooseUser_def conflictsOf_def split: option.splits)

lemma commitOf_keeps:
  "commitOf z project ua fl (assignedTo task) task = (task', ua') \<Longrightarrow>
   assignedTo task' = assignedTo task"
  by (auto simp: commitOf_def Let_def split: option.splits if_splits)

lemma conflictsOf_statics: "sameStatics a b \<Longrightarrow> conflictsOf allUsers a = conflictsOf allUsers b"
  by (simp add: conflictsOf_def sameStatics_def cong: option.case_cong if_cong)

text \<open>
  The invariant of the clones, the conflicts and the kept assignees: an unprocessed clone
  is equal to its original; the conflict list is the list of the conflicts of the output
  tasks, in the order of the output; a processed task for which no candidate was looked
  for or found has the assignee of its original.
\<close>

definition settled :: "user list \<Rightarrow> task list \<Rightarrow> nat \<Rightarrow> state \<Rightarrow> bool" where
  "settled allUsers ts b s \<longleftrightarrow>
     (\<forall>i < length ts. t_id (ts ! i) \<notin> set (doneIds s) \<longrightarrow> heap s ! (b + i) = ts ! i) \<and>
     conflictLog s = concat (map (conflictsOf allUsers) (outputOf s)) \<and>
     (\<forall>i < length ts. t_id (ts ! i) \<in> set (doneIds s) \<longrightarrow> unconstrained allUsers (ts ! i) \<longrightarrow>
        assignedTo (heap s ! (b + i)) = assignedTo (ts ! i))"

lemma prepare_shape:
  assumes "prepare z today project ts allUsers os = Inr s"
  shows "heap s = ts @ os @ ts" "optimizedRefs s = []" "conflictLog s = []"
    "userAvailability s = levelOf z project os (seedUsers today allUsers Map.empty)"
proof -
  from assms obtain q where
    s: "s = (addEdges ts (cloneTasks ts (initialState ts os)))
             \<lparr>userAvailability := levelOf z project os (seedUsers today allUsers Map.empty),
              queue := q\<rparr>"
    by (auto simp: prepare_def Let_def levelResources_eq split: sum.splits if_splits)
  show "heap s = ts @ os @ ts" "optimizedRefs s = []" "conflictLog s = []"
    "userAvailability s = levelOf z project os (seedUsers today allUsers Map.empty)"
    by (simp_all add: s addEdges_frame cloneTasks_frame cloneTasks_heap initialState_def)
qed

lemma settled_prepare:
  assumes "prepare z today project ts allUsers os = Inr s"
  shows "settled allUsers ts (length (ts @ os)) s"
  using prepare_shape[OF assms]
  by (simp add: settled_def outputOf_def doneIds_def nth_append)

lemma settled_step:
  assumes dist: "distinct (map t_id ts)" and f: "framed h0 ts s"
    and kh: "kahn ts (length h0) s" and se: "settled allUsers ts (length h0) s"
    and ne: "queue s \<noteq> []" and st: "step z project allUsers s = Inr s'"
  shows "settled allUsers ts (length h0) s'"
proof -
  let ?b = "length h0"
  from ne obtain k rest where q: "queue s = k # rest" by (cases "queue s") auto
  from step_output[OF dist f kh q st] obtain i0 bestUser cs task' ua' where
    i0: "i0 < length ts" "t_id (ts ! i0) = k" "k \<notin> set (doneIds s)"
    and c: "chooseUser allUsers (userAvailability s)
             (floorOf z s (p_startDate project) (dependencies (ts ! i0)))
             (heap s ! (?b + i0)) = Inr (bestUser, cs)"
      "commitOf z project (userAvailability s)
             (floorOf z s (p_startDate project) (dependencies (ts ! i0))) bestUser
             (heap s ! (?b + i0)) = (task', ua')"
    and new: "heap s' ! (?b + i0) = task'"
    and same: "\<And>j. j \<noteq> i0 \<Longrightarrow> heap s' ! (?b + j) = heap s ! (?b + j)"
    and cl: "conflictLog s' = conflictLog s @ cs"
    and out: "outputOf s' = outputOf s @ [task']"
    by blast
  from se i0 have pr: "heap s ! (?b + i0) = ts ! i0" by (simp add: settled_def)
  have d': "set (doneIds s') = insert k (set (doneIds s))"
    by (simp add: doneIds_output out commitOf_statics[OF c(2), unfolded sameStatics_def] pr i0)
  have idx: "i = i0" if "i < length ts" "t_id (ts ! i) = k" for i
    using dist that i0 by (auto simp: distinct_conv_nth)
  have "conflictsOf allUsers task' = cs"
    using chooseUser_conflicts[OF c(1)] conflictsOf_statics[OF commitOf_statics[OF c(2)]]
    by simp
  with se cl out have lg: "conflictLog s' = concat (map (conflictsOf allUsers) (outputOf s'))"
    by (simp add: settled_def)
  have kp: "assignedTo (heap s' ! (?b + i)) = assignedTo (ts ! i)"
    if i: "i < length ts" "t_id (ts ! i) \<in> set (doneIds s')" "unconstrained allUsers (ts ! i)" for i
  proof (cases "i = i0")
    case True
    from i(3) True have "bestUser = assignedTo (ts ! i0)"
      using c(1) by (simp add: pr chooseUser_unconstrained)
    with c(2) have "assignedTo task' = assignedTo (ts ! i0)"
      by (simp add: pr commitOf_keeps)
    with True new show ?thesis by simp
  next
    case False
    with i idx have "t_id (ts ! i) \<in> set (doneIds s)" by (auto simp: d')
    with se i False show ?thesis by (simp add: settled_def same)
  qed
  have un: "heap s' ! (?b + i) = ts ! i" if "i < length ts" "t_id (ts ! i) \<notin> set (doneIds s')" for i
  proof -
    from that i0 have "i \<noteq> i0" "t_id (ts ! i) \<notin> set (doneIds s)" by (auto simp: d')
    with se that(1) show ?thesis by (simp add: settled_def same)
  qed
  from un lg kp show ?thesis unfolding settled_def by blast
qed

lemma run_settled:
  assumes dist: "distinct (map t_id ts)" and r: "run z today project ts allUsers os = Inr s"
  shows "settled allUsers ts (length (ts @ os)) s"
proof -
  from r obtain s0 where p: "prepare z today project ts allUsers os = Inr s0"
    and l: "loop z project allUsers s0 = Inr s"
    by (auto simp: run_def split: sum.splits)
  let ?b = "length (ts @ os)"
  let ?P = "\<lambda>s. framed (ts @ os) ts s \<and> kahn ts ?b s \<and> settled allUsers ts ?b s"
  have "?P s \<and> queue s = []"
  proof (rule loop_invariant[where P = ?P, OF _ _ l])
    show "?P s0"
      using framed_prepare[OF p] kahn_prepare[OF dist p] settled_prepare[OF p] by simp
    show "\<forall>s s1. ?P s \<and> queue s \<noteq> [] \<and> step z project allUsers s = Inr s1 \<longrightarrow> ?P s1"
      using framed_step kahn_step[OF dist] settled_step[OF dist] by blast
  qed
  then show ?thesis by simp
qed

lemma hd_sort_key_least:
  assumes "x \<in> set xs"
  shows "f (hd (sort_key f xs)) \<le> f x"
proof -
  from assms have ne: "sort_key f xs \<noteq> []" by (metis length_0_conv length_sort empty_iff list.set(1))
  then obtain y ys where y: "sort_key f xs = y # ys" by (cases "sort_key f xs") auto
  have "sorted (map f (sort_key f xs))" by (rule sorted_sort_key)
  with y have "\<forall>z \<in> set ys. f y \<le> f z" by simp
  moreover from assms have "x \<in> set (sort_key f xs)" by simp
  ultimately show ?thesis using y by auto
qed

lemma hd_sort_key_first:
  assumes "xs \<noteq> []"
  shows "hd (sort_key f xs) = hd (filter (\<lambda>y. f y = f (hd (sort_key f xs))) xs)"
proof -
  from assms have "sort_key f xs \<noteq> []" by (metis length_0_conv length_sort)
  then obtain y ys where y: "sort_key f xs = y # ys" by (cases "sort_key f xs") auto
  have "filter (\<lambda>z. f z = f y) (sort_key f xs) = filter (\<lambda>z. f z = f y) xs"
    by (rule sort_key_stable)
  then have "filter (\<lambda>z. f z = f y) xs = y # filter (\<lambda>z. f z = f y) ys" by (simp add: y)
  then have "hd (filter (\<lambda>z. f z = f y) xs) = y" by simp
  with y show ?thesis by simp
qed

subsection \<open>Bookings\<close>

text \<open>The availability map after the bookings of a list of scheduled tasks.\<close>

definition availabilityAfter ::
  "zone \<Rightarrow> (string \<rightharpoonup> date) \<Rightarrow> task list \<Rightarrow> (string \<rightharpoonup> date)" where
  "availabilityAfter z ua0 out = foldl (\<lambda>ua t. book z t ua) ua0 out"

lemma availabilityAfter_snoc:
  "availabilityAfter z ua0 (out @ [t]) = book z t (availabilityAfter z ua0 out)"
  by (simp add: availabilityAfter_def)

lemma availabilityAfter_Nil [simp]: "availabilityAfter z ua0 [] = ua0"
  by (simp add: availabilityAfter_def)

text \<open>
  The invariant of the bookings, when no user has the empty id: the availability map is
  the one before the loop with the output tasks booked in order, and each output task
  starts at the later of its dependency floor and the next free date its assignee had
  when the tasks before it were booked.
\<close>

definition booked :: "zone \<Rightarrow> project \<Rightarrow> (string \<rightharpoonup> date) \<Rightarrow> state \<Rightarrow> bool" where
  "booked z project ua0 s \<longleftrightarrow>
     userAvailability s = availabilityAfter z ua0 (outputOf s) \<and>
     (\<forall>m < length (outputOf s).
        startDate (outputOf s ! m)
          = startOf project (availabilityAfter z ua0 (take m (outputOf s)))
              (floorOf z s (p_startDate project) (dependencies (outputOf s ! m)))
              (assignedTo (outputOf s ! m)))"

lemma output_nth_task:
  assumes f: "framed h0 ts s" and m: "m < length (outputOf s)"
  shows "\<exists>i < length ts. outputOf s ! m = heap s ! (length h0 + i) \<and>
           t_id (ts ! i) \<in> set (doneIds s) \<and> sameStatics (outputOf s ! m) (ts ! i)"
proof -
  from m have "outputOf s ! m \<in> set (optimizedTasks (resultOf s))"
    by (simp add: result_output)
  from output_task[OF f this] show ?thesis .
qed

lemma booked_step:
  assumes dist: "distinct (map t_id ts)" and f: "framed h0 ts s"
    and kh: "kahn ts (length h0) s" and se: "settled allUsers ts (length h0) s"
    and bk: "booked z project ua0 s" and nonempty: "userIdsNonEmpty allUsers"
    and ne: "queue s \<noteq> []" and st: "step z project allUsers s = Inr s'"
  shows "booked z project ua0 s'"
proof -
  let ?b = "length h0"
  from ne obtain k rest where q: "queue s = k # rest" by (cases "queue s") auto
  from step_output[OF dist f kh q st] obtain i0 bestUser cs task' ua' where
    i0: "i0 < length ts" "t_id (ts ! i0) = k" "k \<notin> set (doneIds s)"
    and c: "chooseUser allUsers (userAvailability s)
             (floorOf z s (p_startDate project) (dependencies (ts ! i0)))
             (heap s ! (?b + i0)) = Inr (bestUser, cs)"
      "commitOf z project (userAvailability s)
             (floorOf z s (p_startDate project) (dependencies (ts ! i0))) bestUser
             (heap s ! (?b + i0)) = (task', ua')"
    and ua: "userAvailability s' = ua'"
    and out: "outputOf s' = outputOf s @ [task']"
    and es: "\<And>t d0. t \<in> set ts \<Longrightarrow> t_id t \<in> set (doneIds s) \<or> t_id t = k \<Longrightarrow>
              floorOf z s' d0 (dependencies t) = floorOf z s d0 (dependencies t)"
    by blast
  note pe = process_effect[OF nonempty c]
  from commitOf_statics[OF c(2)] f i0(1) have st': "sameStatics task' (ts ! i0)"
    unfolding framed_def by (blast intro: sameStatics_trans)
  have r1: "userAvailability s' = availabilityAfter z ua0 (outputOf s')"
    using pe bk by (simp add: ua out availabilityAfter_snoc booked_def)
  have r2: "startDate (outputOf s' ! m)
          = startOf project (availabilityAfter z ua0 (take m (outputOf s')))
              (floorOf z s' (p_startDate project) (dependencies (outputOf s' ! m)))
              (assignedTo (outputOf s' ! m))" if m: "m < length (outputOf s')" for m
  proof (cases "m < length (outputOf s)")
    case True
    from output_nth_task[OF f True] obtain i where i: "i < length ts"
      "t_id (ts ! i) \<in> set (doneIds s)" "sameStatics (outputOf s ! m) (ts ! i)" by blast
    then have "dependencies (outputOf s ! m) = dependencies (ts ! i)"
      by (simp add: sameStatics_def)
    with es[of "ts ! i"] i have "floorOf z s' (p_startDate project) (dependencies (outputOf s ! m))
        = floorOf z s (p_startDate project) (dependencies (outputOf s ! m))"
      by simp
    with bk True show ?thesis
      by (simp add: booked_def out nth_append)
  next
    case False
    with m have m': "m = length (outputOf s)" by (simp add: out)
    from st' have "dependencies task' = dependencies (ts ! i0)" by (simp add: sameStatics_def)
    with es[of "ts ! i0"] i0 have "floorOf z s' (p_startDate project) (dependencies task')
        = floorOf z s (p_startDate project) (dependencies (ts ! i0))"
      by simp
    with pe bk show ?thesis
      by (simp add: m' out booked_def)
  qed
  from r1 r2 show ?thesis unfolding booked_def by blast
qed

lemma run_booked:
  assumes dist: "distinct (map t_id ts)" and nonempty: "userIdsNonEmpty allUsers"
    and r: "run z today project ts allUsers os = Inr s"
  shows "booked z project (levelOf z project os (seedUsers today allUsers Map.empty)) s"
proof -
  from r obtain s0 where p: "prepare z today project ts allUsers os = Inr s0"
    and l: "loop z project allUsers s0 = Inr s"
    by (auto simp: run_def split: sum.splits)
  let ?b = "length (ts @ os)"
  let ?ua0 = "levelOf z project os (seedUsers today allUsers Map.empty)"
  let ?P = "\<lambda>s. framed (ts @ os) ts s \<and> kahn ts ?b s \<and> settled allUsers ts ?b s \<and>
                 booked z project ?ua0 s"
  have "?P s \<and> queue s = []"
  proof (rule loop_invariant[where P = ?P, OF _ _ l])
    have "booked z project ?ua0 s0"
      using prepare_shape[OF p] by (simp add: booked_def outputOf_def)
    then show "?P s0"
      using framed_prepare[OF p] kahn_prepare[OF dist p] settled_prepare[OF p] by simp
    show "\<forall>s s1. ?P s \<and> queue s \<noteq> [] \<and> step z project allUsers s = Inr s1 \<longrightarrow> ?P s1"
    proof (intro allI impI, elim conjE, intro conjI)
      fix s s1
      assume a: "framed (ts @ os) ts s" "kahn ts ?b s" "settled allUsers ts ?b s"
        "booked z project ?ua0 s" "queue s \<noteq> []" "step z project allUsers s = Inr s1"
      show "framed (ts @ os) ts s1" by (rule framed_step[OF a(1,5,6)])
      show "kahn ts ?b s1" by (rule kahn_step[OF dist a(1,2,5,6)])
      show "settled allUsers ts ?b s1" by (rule settled_step[OF dist a(1,2,3,5,6)])
      show "booked z project ?ua0 s1" by (rule booked_step[OF dist a(1,2,3,4) nonempty a(5,6)])
    qed
  qed
  then show ?thesis by simp
qed

text \<open>The \<^verbatim>\<open>addDays\<close> that booked an output task with an assignee did not throw.\<close>

definition inTime :: "zone \<Rightarrow> state \<Rightarrow> bool" where
  "inTime z s \<longleftrightarrow>
     (\<forall>t \<in> set (outputOf s). truthy (assignedTo t) \<longrightarrow> inRange z (startDate t) (duration t))"

lemma inTime_step:
  assumes dist: "distinct (map t_id ts)" and f: "framed h0 ts s"
    and kh: "kahn ts (length h0) s" and it: "inTime z s" and nonempty: "userIdsNonEmpty allUsers"
    and ne: "queue s \<noteq> []" and st: "step z project allUsers s = Inr s'"
  shows "inTime z s'"
proof -
  from ne obtain k rest where q: "queue s = k # rest" by (cases "queue s") auto
  from step_output[OF dist f kh q st] obtain i0 bestUser cs task' ua' where
    c: "chooseUser allUsers (userAvailability s)
             (floorOf z s (p_startDate project) (dependencies (ts ! i0)))
             (heap s ! (length h0 + i0)) = Inr (bestUser, cs)"
      "commitOf z project (userAvailability s)
             (floorOf z s (p_startDate project) (dependencies (ts ! i0))) bestUser
             (heap s ! (length h0 + i0)) = (task', ua')"
    and out: "outputOf s' = outputOf s @ [task']"
    and ok: "commitOK z project (userAvailability s)
             (floorOf z s (p_startDate project) (dependencies (ts ! i0))) bestUser
             (heap s ! (length h0 + i0))"
    by blast
  from process_range[OF nonempty c ok] it show ?thesis
    by (auto simp: inTime_def out)
qed

lemma run_inTime:
  assumes dist: "distinct (map t_id ts)" and nonempty: "userIdsNonEmpty allUsers"
    and r: "run z today project ts allUsers os = Inr s"
  shows "inTime z s"
proof -
  from r obtain s0 where p: "prepare z today project ts allUsers os = Inr s0"
    and l: "loop z project allUsers s0 = Inr s"
    by (auto simp: run_def split: sum.splits)
  let ?b = "length (ts @ os)"
  let ?P = "\<lambda>s. framed (ts @ os) ts s \<and> kahn ts ?b s \<and> inTime z s"
  have "?P s \<and> queue s = []"
  proof (rule loop_invariant[where P = ?P, OF _ _ l])
    have "inTime z s0"
      using prepare_shape[OF p] by (simp add: inTime_def outputOf_def)
    then show "?P s0"
      using framed_prepare[OF p] kahn_prepare[OF dist p] by simp
    show "\<forall>s s1. ?P s \<and> queue s \<noteq> [] \<and> step z project allUsers s = Inr s1 \<longrightarrow> ?P s1"
    proof (intro allI impI, elim conjE, intro conjI)
      fix s s1
      assume a: "framed (ts @ os) ts s" "kahn ts ?b s" "inTime z s"
        "queue s \<noteq> []" "step z project allUsers s = Inr s1"
      show "framed (ts @ os) ts s1" by (rule framed_step[OF a(1,4,5)])
      show "kahn ts ?b s1" by (rule kahn_step[OF dist a(1,2,4,5)])
      show "inTime z s1" by (rule inTime_step[OF dist a(1,2,3) nonempty a(4,5)])
    qed
  qed
  then show ?thesis by simp
qed

lemma availabilityAfter_Cons:
  "availabilityAfter z ua0 (t # out) = availabilityAfter z (book z t ua0) out"
  by (simp add: availabilityAfter_def)

lemma availabilityAfter_append:
  "availabilityAfter z ua0 (xs @ ys) = availabilityAfter z (availabilityAfter z ua0 xs) ys"
  by (simp add: availabilityAfter_def)

lemma availabilityAfter_other:
  "\<forall>t \<in> set out. assignedTo t \<noteq> Some u \<Longrightarrow> availabilityAfter z ua0 out u = ua0 u"
  by (induction out arbitrary: ua0) (auto simp: availabilityAfter_Cons book_def split: option.splits)

lemma availabilityAfter_last:
  assumes "u \<noteq> []" and "assignedTo t = Some u" and "\<forall>t' \<in> set ys. assignedTo t' \<noteq> Some u"
  shows "availabilityAfter z ua0 (xs @ t # ys) u = Some (endDay z (startDate t) (duration t))"
proof -
  have "availabilityAfter z ua0 (xs @ t # ys) u
      = availabilityAfter z (book z t (availabilityAfter z ua0 xs)) ys u"
    by (simp add: availabilityAfter_append availabilityAfter_Cons)
  also have "\<dots> = book z t (availabilityAfter z ua0 xs) u"
    by (rule availabilityAfter_other[OF assms(3)])
  also have "\<dots> = Some (endDay z (startDate t) (duration t))"
    using assms(1,2) by (simp add: book_def)
  finally show ?thesis .
qed

lemma startOf_ge_cursor:
  "u \<noteq> [] \<Longrightarrow> ua u = Some c \<Longrightarrow> c \<le> startOf project ua fl (Some u)"
  by (simp add: startOf_def maxDate_ge)

text \<open>When no task ends before it starts, the cursor of a user never moves back behind the
  end of a task booked for that user.\<close>

lemma cursor_behind_bookings:
  assumes dur: "\<forall>t \<in> set out. startDate t \<le> endDay z (startDate t) (duration t)"
    and mono: "\<forall>m < length out. \<forall>u c. assignedTo (out ! m) = Some u \<and> u \<noteq> [] \<and>
                 availabilityAfter z ua0 (take m out) u = Some c \<longrightarrow> c \<le> startDate (out ! m)"
    and m: "m1 < m2" "m2 \<le> length out" and a: "assignedTo (out ! m1) = Some u" "u \<noteq> []"
  shows "\<exists>c. availabilityAfter z ua0 (take m2 out) u = Some c \<and>
             endDay z (startDate (out ! m1)) (duration (out ! m1)) \<le> c"
  using m
proof (induction m2)
  case 0
  then show ?case by simp
next
  case (Suc m2)
  then have lt: "m2 < length out" by simp
  then have tk: "take (Suc m2) out = take m2 out @ [out ! m2]"
    by (simp add: take_Suc_conv_app_nth)
  show ?case
  proof (cases "m1 = m2")
    case True
    with a show ?thesis by (simp add: tk availabilityAfter_snoc book_def)
  next
    case False
    with Suc.prems have "m1 < m2" by simp
    from Suc.IH[OF this] lt obtain c where
      c: "availabilityAfter z ua0 (take m2 out) u = Some c"
        "endDay z (startDate (out ! m1)) (duration (out ! m1)) \<le> c" by auto
    show ?thesis
    proof (cases "assignedTo (out ! m2) = Some u")
      case True
      with mono lt a(2) c(1) have "c \<le> startDate (out ! m2)" by blast
      moreover from dur lt
      have "startDate (out ! m2) \<le> endDay z (startDate (out ! m2)) (duration (out ! m2))"
        by simp
      ultimately show ?thesis
        using True a(2) c(2) by (simp add: tk availabilityAfter_snoc book_def)
    next
      case False
      with c show ?thesis
        by (auto simp: tk availabilityAfter_snoc book_def split: option.splits)
    qed
  qed
qed

lemma levelOf_None:
  assumes "ua u = None"
  shows "levelOf z project os ua u = None"
proof -
  from assms have "u \<notin> dom ua" by auto
  then have "u \<notin> dom (levelOf z project os ua)" by (simp add: levelOf_dom)
  then show ?thesis by auto
qed

lemma seedUsers_dom: "dom (seedUsers today us ua) = dom ua \<union> u_id ` set us"
  by (induction us arbitrary: ua) auto

lemma initial_availability_unknown:
  "u \<notin> u_id ` set allUsers \<Longrightarrow>
   levelOf z project os (seedUsers today allUsers Map.empty) u = None"
proof (rule levelOf_None)
  assume "u \<notin> u_id ` set allUsers"
  then have "u \<notin> dom (seedUsers today allUsers Map.empty)" by (simp add: seedUsers_dom)
  then show "seedUsers today allUsers Map.empty u = None" by auto
qed

subsection \<open>The dependency floor\<close>

text \<open>
  The dependency floor of an output task, after the words of the specification: the
  latest end date among its dependencies in the output, floored by the start date of the
  project. The end date of a dependency is the day that \<^verbatim>\<open>addDays\<close> gives from its
  \<^verbatim>\<open>startDate\<close> and \<^verbatim>\<open>duration\<close>.
\<close>

definition dependencyFloor :: "zone \<Rightarrow> project \<Rightarrow> task list \<Rightarrow> task \<Rightarrow> date" where
  "dependencyFloor z project out t =
     Max (insert (p_startDate project)
            ((\<lambda>d. endDay z (startDate d) (duration d)) `
               {d \<in> set out. t_id d \<in> set (dependencies t)}))"

lemma maxDate_max: "maxDate d1 d2 = max d1 d2"
  by (simp add: maxDate_def max_def)

lemma Max_insert_max:
  "finite A \<Longrightarrow> Max (insert (max x y) A) = Max (insert x (insert y A))"
  by (cases "A = {}") (simp_all add: max.assoc)

lemma finite_refs: "finite {r. \<exists>d \<in> set ds. taskMap s d = Some r}"
proof (rule finite_subset)
  show "{r. \<exists>d \<in> set ds. taskMap s d = Some r} \<subseteq> (\<lambda>d. the (taskMap s d)) ` set ds"
    by force
qed simp

lemma floorOf_Max:
  "floorOf z s d0 ds =
     Max (insert d0 ((\<lambda>r. endDay z (startDate (heap s ! r)) (duration (heap s ! r))) `
                      {r. \<exists>d \<in> set ds. taskMap s d = Some r}))"
proof (induction ds arbitrary: d0)
  case Nil
  then show ?case by simp
next
  case (Cons a ds)
  let ?e = "\<lambda>r. endDay z (startDate (heap s ! r)) (duration (heap s ! r))"
  let ?S = "{r. \<exists>d \<in> set ds. taskMap s d = Some r}"
  have fin: "finite (?e ` ?S)" by (rule finite_imageI) (rule finite_refs)
  show ?case
  proof (cases "taskMap s a")
    case None
    then have "{r. \<exists>d \<in> set (a # ds). taskMap s d = Some r} = ?S" by auto
    with None Cons.IH[of d0] show ?thesis by simp
  next
    case (Some r)
    then have "{r. \<exists>d \<in> set (a # ds). taskMap s d = Some r} = insert r ?S" by auto
    moreover have "floorOf z s d0 (a # ds) = Max (insert (max d0 (?e r)) (?e ` ?S))"
      using Some Cons.IH[of "max d0 (?e r)"] by (simp add: maxDate_max)
    ultimately show ?thesis
      using Max_insert_max[OF fin, of d0 "?e r"] by simp
  qed
qed

lemma final_floor:
  assumes dist: "distinct (map t_id ts)" and f: "framed h0 ts s" and kh: "kahn ts (length h0) s"
    and m: "m < length (outputOf s)"
  shows "floorOf z s (p_startDate project) (dependencies (outputOf s ! m))
           = dependencyFloor z project (outputOf s) (outputOf s ! m)"
proof -
  let ?b = "length h0"
  let ?t = "outputOf s ! m"
  let ?ds = "dependencies ?t"
  from output_nth_task[OF f m] obtain i where i: "i < length ts"
    "t_id (ts ! i) \<in> set (doneIds s)" "sameStatics ?t (ts ! i)" by blast
  then have dp: "?ds = dependencies (ts ! i)" by (simp add: sameStatics_def)
  from kahn_done_closed[OF kh _ i(2)] i(1) have pz: "pending ts (set (doneIds s)) (ts ! i) = 0"
    by simp
  have "(\<lambda>r. heap s ! r) ` {r. \<exists>d \<in> set ?ds. taskMap s d = Some r}
          = {d \<in> set (outputOf s). t_id d \<in> set ?ds}" (is "?L = ?R")
  proof (intro set_eqI iffI)
    fix t assume "t \<in> ?L"
    then obtain r d where r: "d \<in> set ?ds" "taskMap s d = Some r" "t = heap s ! r" by auto
    note fr = framed_taskMap[OF f r(2)]
    then have "d \<in> t_id ` set ts" by auto
    with pz r(1) dp have "d \<in> set (doneIds s)" by (auto simp: pending_zero)
    with fr have "t_id (ts ! (r - ?b)) \<in> set (doneIds s)" by simp
    from output_of_done[OF f kh fr(2) this] fr(1) have "t \<in> set (outputOf s)"
      by (simp add: r(3) result_output)
    moreover from f fr have "sameStatics (heap s ! (?b + (r - ?b))) (ts ! (r - ?b))"
      unfolding framed_def by blast
    with fr r have "t_id t = d" by (simp add: sameStatics_def)
    ultimately show "t \<in> ?R" using r(1) by simp
  next
    fix t assume "t \<in> ?R"
    then have t: "t \<in> set (optimizedTasks (resultOf s))" "t_id t \<in> set ?ds"
      by (simp_all add: result_output)
    from output_task[OF f t(1)] obtain j where j: "j < length ts" "t = heap s ! (?b + j)"
      "sameStatics t (ts ! j)" by blast
    from kh j(1) have "taskMap s (t_id (ts ! j)) = Some (?b + j)" by (simp add: kahn_def)
    with j t(2) show "t \<in> ?L" by (auto simp: sameStatics_def)
  qed
  then have "(\<lambda>d. endDay z (startDate d) (duration d)) ` {d \<in> set (outputOf s). t_id d \<in> set ?ds}
      = (\<lambda>r. endDay z (startDate (heap s ! r)) (duration (heap s ! r))) ` {r. \<exists>d \<in> set ?ds. taskMap s d = Some r}"
    by (simp add: image_image[symmetric, of "\<lambda>d. endDay z (startDate d) (duration d)" "\<lambda>r. heap s ! r"]
        del: image_image)
  then show ?thesis
    by (simp add: floorOf_Max dependencyFloor_def)
qed

lemma drop_take_between:
  assumes "t \<in> set (drop (Suc m') (take m out))" and "m \<le> length out"
  shows "\<exists>m''. m' < m'' \<and> m'' < m \<and> t = out ! m''"
proof -
  from assms(1) obtain j where j: "j < length (drop (Suc m') (take m out))"
    "t = drop (Suc m') (take m out) ! j"
    by (auto simp: in_set_conv_nth)
  with assms(2) have "Suc m' + j < m" by simp
  with j assms(2) have "t = out ! (Suc m' + j)" by simp
  with \<open>Suc m' + j < m\<close> show ?thesis by (intro exI[of _ "Suc m' + j"]) simp
qed

subsection \<open>Stable sorts of rearranged lists\<close>

lemma sort_key_same_classes:
  assumes "mset xs = mset ys"
    and "\<And>c. filter (\<lambda>x. f x = c) xs = filter (\<lambda>x. f x = c) ys"
  shows "sort_key f xs = sort_key f ys"
proof (rule properties_for_sort_key)
  show "mset (sort_key f ys) = mset xs" using assms(1) by simp
  show "sorted (map f (sort_key f ys))" by simp
  fix k
  have "filter (\<lambda>x. f k = f x) (sort_key f ys) = filter (\<lambda>x. f x = f k) (sort_key f ys)"
    by (rule filter_cong) auto
  also have "\<dots> = filter (\<lambda>x. f x = f k) ys" by (rule sort_key_stable)
  also have "\<dots> = filter (\<lambda>x. f x = f k) xs" by (rule assms(2)[symmetric])
  also have "\<dots> = filter (\<lambda>x. f k = f x) xs" by (rule filter_cong) auto
  finally show "filter (\<lambda>x. f k = f x) (sort_key f ys) = filter (\<lambda>x. f k = f x) xs" .
qed

lemma sort_key_sort_append: "sort_key f (sort_key f xs @ ys) = sort_key f (xs @ ys)"
  by (rule sort_key_same_classes) (simp_all add: sort_key_stable)

lemma foldl_push_sort:
  "sorted (map f q) \<Longrightarrow> foldl (\<lambda>q x. sort_key f (q @ [x])) q xs = sort_key f (q @ xs)"
proof (induction xs arbitrary: q)
  case Nil
  then show ?case by (simp add: sort_key_id_if_sorted)
next
  case (Cons x xs)
  have "foldl (\<lambda>q x. sort_key f (q @ [x])) (sort_key f (q @ [x])) xs
          = sort_key f (sort_key f (q @ [x]) @ xs)"
    by (rule Cons.IH) simp
  then show ?case by (simp add: sort_key_sort_append)
qed

lemma sort_key_cong_set:
  assumes "\<And>x. x \<in> set xs \<Longrightarrow> f x = g x"
  shows "sort_key f xs = sort_key g xs"
proof (rule properties_for_sort_key)
  show "mset (sort_key g xs) = mset xs" by simp
  have m: "map f (sort_key g xs) = map g (sort_key g xs)"
    by (rule map_cong[OF refl]) (simp add: assms)
  show "sorted (map f (sort_key g xs))" unfolding m by simp
  fix k assume k: "k \<in> set (sort_key g xs)"
  have "filter (\<lambda>x. f k = f x) (sort_key g xs) = filter (\<lambda>x. g x = g k) (sort_key g xs)"
    by (rule filter_cong) (use k assms in auto)
  also have "\<dots> = filter (\<lambda>x. g x = g k) xs" by (rule sort_key_stable)
  also have "\<dots> = filter (\<lambda>x. f k = f x) xs"
    by (rule filter_cong) (use k assms in auto)
  finally show "filter (\<lambda>x. f k = f x) (sort_key g xs) = filter (\<lambda>x. f k = f x) xs" .
qed

text \<open>A list that lists its elements in the order of the list \<open>L\<close>.\<close>

definition alongside :: "'a list \<Rightarrow> 'a list \<Rightarrow> bool" where
  "alongside L q \<longleftrightarrow> q = filter (\<lambda>x. x \<in> set q) L"

lemma alongside_eq: "alongside L a \<Longrightarrow> alongside L b \<Longrightarrow> set a = set b \<Longrightarrow> a = b"
  by (simp add: alongside_def)

lemma alongside_distinct: "distinct L \<Longrightarrow> alongside L q \<Longrightarrow> distinct q"
  unfolding alongside_def by (metis distinct_filter)

lemma alongside_filter:
  assumes "alongside L q"
  shows "alongside L (filter P q)"
proof -
  from assms have q: "q = filter (\<lambda>x. x \<in> set q) L" by (simp add: alongside_def)
  have "filter P q = filter P (filter (\<lambda>x. x \<in> set q) L)"
    by (rule arg_cong[where f = "filter P", OF q])
  also have "\<dots> = filter (\<lambda>x. x \<in> set q \<and> P x) L" by (rule filter_filter)
  also have "\<dots> = filter (\<lambda>x. x \<in> set (filter P q)) L" by simp
  finally show ?thesis unfolding alongside_def .
qed

lemma alongside_append:
  assumes "distinct L" and "alongside L (xs @ ys)"
  shows "alongside L xs" "alongside L ys"
proof -
  from alongside_distinct[OF assms] have d: "distinct (xs @ ys)" .
  have "filter (\<lambda>x. x \<in> set xs) (xs @ ys) = xs"
    using d by (auto simp: filter_empty_conv filter_id_conv)
  with alongside_filter[OF assms(2), of "\<lambda>x. x \<in> set xs"] show "alongside L xs" by simp
  have "filter (\<lambda>x. x \<in> set ys) (xs @ ys) = ys"
    using d by (auto simp: filter_empty_conv filter_id_conv)
  with alongside_filter[OF assms(2), of "\<lambda>x. x \<in> set ys"] show "alongside L ys" by simp
qed

lemma alongside_map_filter:
  assumes "distinct (map g ts)"
  shows "alongside (map g ts) (map g (filter Q ts))"
proof -
  have "filter (\<lambda>x. x \<in> set (map g (filter Q ts))) (map g ts)
          = map g (filter (\<lambda>t. g t \<in> set (map g (filter Q ts))) ts)"
    by (simp add: filter_map comp_def)
  also have "filter (\<lambda>t. g t \<in> set (map g (filter Q ts))) ts = filter Q ts"
  proof (rule filter_cong[OF refl])
    fix t assume "t \<in> set ts"
    with assms show "(g t \<in> set (map g (filter Q ts))) = Q t"
      by (auto simp: distinct_map inj_on_def)
  qed
  finally show ?thesis by (simp add: alongside_def)
qed

lemma alongside_rest:
  assumes "alongside L (sort_key f (rest @ new))" and "sorted (map f rest)"
    and "set rest \<inter> set new = {}"
  shows "alongside L rest"
proof -
  have "filter (\<lambda>x. x \<in> set rest) (sort_key f (rest @ new))
          = sort_key f (filter (\<lambda>x. x \<in> set rest) (rest @ new))"
    by (rule filter_sort)
  also have "filter (\<lambda>x. x \<in> set rest) (rest @ new) = rest"
    using assms(3) by (auto simp: filter_empty_conv filter_id_conv)
  also have "sort_key f rest = rest" using assms(2) by (rule sort_key_id_if_sorted)
  finally show ?thesis
    using alongside_filter[OF assms(1), of "\<lambda>x. x \<in> set rest"] by simp
qed

text \<open>Two lists pushed behind the same queue give the same sorted queue when one of the
  sorted queues and the other pushed list follow the same order.\<close>

lemma sort_key_rearranged:
  assumes L: "distinct L" and a1: "alongside L (sort_key f (rest @ new1))"
    and a2: "alongside L new2" and s: "set new2 = set new1"
  shows "sort_key f (rest @ new2) = sort_key f (rest @ new1)"
proof (rule sort_key_same_classes)
  from alongside_distinct[OF L a1] have d1: "distinct (rest @ new1)" by simp
  from alongside_distinct[OF L a2] have d2: "distinct new2" .
  from d1 d2 s have "mset new2 = mset new1"
    by (simp add: set_eq_iff_mset_eq_distinct[symmetric])
  then show "mset (rest @ new2) = mset (rest @ new1)" by simp
  fix c
  have "alongside L (filter (\<lambda>x. f x = c) (sort_key f (rest @ new1)))"
    by (rule alongside_filter[OF a1])
  then have "alongside L (filter (\<lambda>x. f x = c) rest @ filter (\<lambda>x. f x = c) new1)"
    by (simp add: sort_key_stable)
  from alongside_append(2)[OF L this] have "alongside L (filter (\<lambda>x. f x = c) new1)" .
  moreover have "alongside L (filter (\<lambda>x. f x = c) new2)" by (rule alongside_filter[OF a2])
  ultimately have "filter (\<lambda>x. f x = c) new2 = filter (\<lambda>x. f x = c) new1"
    by (intro alongside_eq[of L]) (simp_all add: s)
  then show "filter (\<lambda>x. f x = c) (rest @ new2) = filter (\<lambda>x. f x = c) (rest @ new1)"
    by simp
qed

subsection \<open>The queue after one iteration\<close>

text \<open>The task with a given id, and the sort key of an id: its negated priority weight.\<close>

definition taskOf :: "task list \<Rightarrow> string \<Rightarrow> task" where
  "taskOf ts k = the (find (\<lambda>t. t_id t = k) ts)"

definition idKey :: "task list \<Rightarrow> string \<Rightarrow> int" where
  "idKey ts k = - priorityWeight (priority (taskOf ts k))"

text \<open>The ids that the processing of \<open>k\<close> releases, in the order of the task list.\<close>

definition released :: "task list \<Rightarrow> string set \<Rightarrow> string \<Rightarrow> string list" where
  "released ts D k =
     map t_id (filter (\<lambda>t. k \<in> set (dependencies t) \<and> pending ts (insert k D) t = 0) ts)"

lemma taskOf_in: "distinct (map t_id ts) \<Longrightarrow> t \<in> set ts \<Longrightarrow> taskOf ts (t_id t) = t"
  unfolding taskOf_def by (induction ts) auto

lemma queueWeight_id:
  assumes dist: "distinct (map t_id ts)" and f: "framed h0 ts s"
    and kh: "kahn ts (length h0) s" and k: "k \<in> t_id ` set ts"
  shows "queueWeight s k = Some (- idKey ts k)"
proof -
  from k obtain i where i: "i < length ts" "t_id (ts ! i) = k"
    by (auto simp: in_set_conv_nth)
  from kh i have tm: "taskMap s k = Some (length h0 + i)" by (auto simp: kahn_def)
  from f i have "sameStatics (heap s ! (length h0 + i)) (ts ! i)"
    unfolding framed_def by blast
  moreover have "taskOf ts k = ts ! i"
    using taskOf_in[OF dist, of "ts ! i"] i by simp
  ultimately show ?thesis
    by (simp add: queueWeight_def tm idKey_def sameStatics_def)
qed

lemma remdups_replicate_append:
  "a \<notin> set xs \<Longrightarrow> remdups (replicate c a @ xs) = (if c = 0 then remdups xs else a # remdups xs)"
  by (induction c) auto

lemma remdups_succs:
  assumes "distinct (map t_id ts)"
  shows "remdups (succs ts k) = map t_id (filter (\<lambda>t. k \<in> set (dependencies t)) ts)"
  using assms
proof (induction ts)
  case Nil
  then show ?case by (simp add: succs_def)
next
  case (Cons t ts)
  have s: "succs (t # ts) k = replicate (count_list (dependencies t) k) (t_id t) @ succs ts k"
    by (simp add: succs_def)
  have "t_id t \<notin> set (succs ts k)"
    using Cons.prems set_succs[of "t_id t" ts k] by auto
  from remdups_replicate_append[OF this] Cons show ?case
    by (simp add: s count_list_0_iff)
qed

lemma queueWeight_update [simp]:
  "queueWeight (s\<lparr>incomingDegree := x\<rparr>) = queueWeight s"
  "queueWeight (s\<lparr>queue := q\<rparr>) = queueWeight s"
  by (simp_all add: queueWeight_def fun_eq_iff cong: option.case_cong)

text \<open>
  The release of the successors \<open>ns\<close>, seen at the queue: the successors whose counter
  reaches zero are pushed in the order of their last occurrence, and every push sorts.
\<close>

lemma release_queue:
  assumes "release s ns = Inr s'"
    and "\<forall>x \<in> set ns. map_of (incomingDegree s) x = Some (int (c x + count_list ns x))"
    and "\<forall>k \<in> set (queue s) \<union> set ns. queueWeight s k = Some (- f k)"
    and "sorted (map f (queue s))"
  shows "queue s' = sort_key f (queue s @ filter (\<lambda>x. c x = 0) (remdups ns))"
  using assms
proof (induction ns arbitrary: s)
  case Nil
  then show ?case by (simp add: sort_key_id_if_sorted)
next
  case (Cons n ns)
  let ?d = "int (c n + count_list (n # ns) n)"
  from Cons.prems(2) have d: "map_of (incomingDegree s) n = Some ?d" by simp
  let ?s1 = "s\<lparr>incomingDegree := AList.update n (?d - 1) (incomingDegree s)\<rparr>"
  have deg1: "\<forall>x\<in>set ns. map_of (incomingDegree ?s1) x = Some (int (c x + count_list ns x))"
    using Cons.prems(2) by (auto simp: update_conv')
  show ?case
  proof (cases "?d - 1 = 0")
    case True
    then have "int (c n + count_list ns n) = 0" by simp
    then have "c n + count_list ns n = 0" by (simp only: of_nat_eq_0_iff)
    then have z: "c n = 0" "n \<notin> set ns" by (simp_all add: count_list_0_iff)
    from Cons.prems(1) d True obtain q where q: "sortQueue ?s1 (queue s @ [n]) = Inr q"
      and r: "release (?s1\<lparr>queue := q\<rparr>) ns = Inr s'"
      by (auto simp: Let_def split: sum.splits)
    from q have "q = sort_key (\<lambda>k. - the (queueWeight s k)) (queue s @ [n])"
      by (auto simp: sortQueue_def split: if_splits)
    also have "\<dots> = sort_key f (queue s @ [n])"
      by (rule sort_key_cong_set) (use Cons.prems(3) in auto)
    finally have q': "q = sort_key f (queue s @ [n])" .
    have "queue s' = sort_key f (queue (?s1\<lparr>queue := q\<rparr>) @ filter (\<lambda>x. c x = 0) (remdups ns))"
    proof (rule Cons.IH[OF r])
      show "\<forall>x\<in>set ns. map_of (incomingDegree (?s1\<lparr>queue := q\<rparr>)) x
              = Some (int (c x + count_list ns x))"
        using deg1 by simp
      show "\<forall>k\<in>set (queue (?s1\<lparr>queue := q\<rparr>)) \<union> set ns.
              queueWeight (?s1\<lparr>queue := q\<rparr>) k = Some (- f k)"
        using Cons.prems(3) by (auto simp: q')
      show "sorted (map f (queue (?s1\<lparr>queue := q\<rparr>)))" by (simp add: q')
    qed
    then have "queue s' = sort_key f (sort_key f (queue s @ [n]) @ filter (\<lambda>x. c x = 0) (remdups ns))"
      by (simp add: q')
    then show ?thesis
      using z by (simp add: sort_key_sort_append)
  next
    case False
    with Cons.prems(1) d have r: "release ?s1 ns = Inr s'" by (simp add: Let_def)
    have "queue s' = sort_key f (queue ?s1 @ filter (\<lambda>x. c x = 0) (remdups ns))"
    proof (rule Cons.IH[OF r deg1])
      show "\<forall>k\<in>set (queue ?s1) \<union> set ns. queueWeight ?s1 k = Some (- f k)"
        using Cons.prems(3) by auto
      show "sorted (map f (queue ?s1))" using Cons.prems(4) by simp
    qed
    moreover have "filter (\<lambda>x. c x = 0) (remdups (n # ns)) = filter (\<lambda>x. c x = 0) (remdups ns)"
    proof (cases "n \<in> set ns")
      case True
      then show ?thesis by simp
    next
      case n: False
      then have "count_list ns n = 0" by (simp add: count_list_0_iff)
      with False have "c n \<noteq> 0" by simp
      with n show ?thesis by simp
    qed
    ultimately show ?thesis by simp
  qed
qed

text \<open>One iteration, seen at the queue, for pairwise different ids.\<close>

lemma step_queue:
  assumes dist: "distinct (map t_id ts)" and f: "framed h0 ts s"
    and kh: "kahn ts (length h0) s"
    and q: "queue s = k # rest" and st: "step z project allUsers s = Inr s'"
    and so: "sorted (map (idKey ts) (queue s))"
  shows "queue s' = sort_key (idKey ts) (rest @ released ts (set (doneIds s)) k)"
proof -
  let ?I = "t_id ` set ts"
  let ?D = "set (doneIds s)"
  let ?D' = "insert k ?D"
  let ?c = "\<lambda>x. pending ts ?D' (taskOf ts x)"
  from step_Inr[OF q st] obtain r s1 where r: "taskMap s k = Some r"
    and a: "assignTask z project allUsers (s\<lparr>queue := rest\<rparr>) r = Inr s1"
    and e: "case outgoingEdges s k of None \<Rightarrow> s' = s1 | Some ns \<Rightarrow> release s1 ns = Inr s'"
    by blast
  from kh q have kin: "k \<in> ?I" "k \<notin> ?D" "set rest \<subseteq> ?I - ?D"
    by (auto simp: kahn_def)
  from kh kin(1) have oe: "outgoingEdges s k = Some (succs ts k)"
    unfolding kahn_def by blast
  with e have rel: "release s1 (succs ts k) = Inr s'" by simp
  note fr = assignTask_frame[OF a]
  have f1: "framed h0 ts s1"
    by (rule framed_assignTask[OF _ _ a]) (use f r in simp_all)
  have pk: "pending ts ?D t = 0" if "t \<in> set ts" "t_id t = k" for t
    using kh that kin(2) q by (auto simp: kahn_def)
  have pre: "\<forall>x \<in> set (succs ts k).
               map_of (incomingDegree s1) x = Some (int (?c x + count_list (succs ts k) x))"
  proof
    fix x assume "x \<in> set (succs ts k)"
    from set_succs[OF this] obtain t where t: "t \<in> set ts" "x = t_id t" "k \<in> set (dependencies t)"
      by blast
    have "pending ts ?D t \<noteq> 0"
      using t(3) kin(1,2) by (auto simp: pending_zero)
    with pk[OF t(1)] kahn_done_closed[OF kh t(1)] t have x: "x \<notin> ?D'" by auto
    have p: "pending ts ?D' t + count_list (succs ts k) (t_id t) = pending ts ?D t"
      using pending_insert[OF kin(1,2), of t] count_succs[OF dist t(1), of k] by simp
    from kh t x have "map_of (incomingDegree s) (t_id t) = Some (int (pending ts ?D t))"
      by (auto simp: kahn_def)
    with fr p show "map_of (incomingDegree s1) x = Some (int (?c x + count_list (succs ts k) x))"
      by (simp add: t(2) taskOf_in[OF dist t(1)])
  qed
  have w: "queueWeight s1 x = Some (- idKey ts x)" if "x \<in> ?I" for x
  proof -
    from that obtain i where i: "i < length ts" "t_id (ts ! i) = x"
      by (auto simp: in_set_conv_nth)
    from kh i fr have tm: "taskMap s1 x = Some (length h0 + i)" by (auto simp: kahn_def)
    from f1 i have "sameStatics (heap s1 ! (length h0 + i)) (ts ! i)"
      unfolding framed_def by blast
    moreover have "taskOf ts x = ts ! i"
      using taskOf_in[OF dist, of "ts ! i"] i by simp
    ultimately show ?thesis
      by (simp add: queueWeight_def tm idKey_def sameStatics_def)
  qed
  have "queue s' = sort_key (idKey ts) (queue s1 @ filter (\<lambda>x. ?c x = 0) (remdups (succs ts k)))"
  proof (rule release_queue[OF rel pre])
    show "\<forall>x\<in>set (queue s1) \<union> set (succs ts k). queueWeight s1 x = Some (- idKey ts x)"
      using w kin(3) fr by (auto dest: set_succs)
    show "sorted (map (idKey ts) (queue s1))" using so fr q by simp
  qed
  moreover have "filter (\<lambda>x. ?c x = 0) (remdups (succs ts k)) = released ts ?D k"
  proof -
    have "filter (\<lambda>x. ?c x = 0) (map t_id (filter (\<lambda>t. k \<in> set (dependencies t)) ts))
        = map t_id (filter (\<lambda>t. ?c (t_id t) = 0) (filter (\<lambda>t. k \<in> set (dependencies t)) ts))"
      by (simp add: filter_map comp_def)
    also have "\<dots> = map t_id (filter (\<lambda>t. k \<in> set (dependencies t) \<and> ?c (t_id t) = 0) ts)"
      by simp
    also have "filter (\<lambda>t. k \<in> set (dependencies t) \<and> ?c (t_id t) = 0) ts
        = filter (\<lambda>t. k \<in> set (dependencies t) \<and> pending ts ?D' t = 0) ts"
      by (rule filter_cong[OF refl]) (simp add: taskOf_in[OF dist])
    finally show ?thesis by (simp add: remdups_succs[OF dist] released_def)
  qed
  ultimately show ?thesis using fr by simp
qed

lemma prepare_queue:
  assumes dist: "distinct (map t_id ts)"
    and p: "prepare z today project ts allUsers os = Inr s"
  shows "queue s = sort_key (idKey ts) (map t_id (filter (\<lambda>t. pending ts {} t = 0) ts))"
proof -
  note f = framed_prepare[OF p] and kh = kahn_prepare[OF dist p]
  from p obtain s2 q where sq: "sortQueue s2 (initialQueue ts s2) = Inr q"
    and s: "s = s2\<lparr>queue := q\<rparr>"
    by (auto simp: prepare_def Let_def split: sum.splits)
  have w: "queueWeight s2 = queueWeight s"
    by (simp add: s)
  have deg: "incomingDegree s2 = incomingDegree s" and qu: "queue s = q" by (simp_all add: s)
  have dn: "doneIds s = []" using prepare_shape[OF p] by (simp add: doneIds_def)
  have iq: "initialQueue ts s2 = map t_id (filter (\<lambda>t. pending ts {} t = 0) ts)"
    unfolding initialQueue_def
  proof (rule arg_cong[where f = "map t_id"], rule filter_cong[OF refl])
    fix t assume "t \<in> set ts"
    with kh have "map_of (incomingDegree s) (t_id t) = Some (int (pending ts {} t))"
      by (auto simp: kahn_def dn)
    then show "(degreeOr0 (incomingDegree s2) (t_id t) = 0) = (pending ts {} t = 0)"
      by (simp add: degreeOr0_def deg)
  qed
  from sq have "queue s = sort_key (\<lambda>k. - the (queueWeight s k)) (initialQueue ts s2)"
    unfolding qu by (auto simp: sortQueue_def w split: if_splits)
  also have "\<dots> = sort_key (idKey ts) (initialQueue ts s2)"
    by (rule sort_key_cong_set) (auto simp: iq queueWeight_id[OF dist f kh])
  finally show ?thesis by (simp add: iq)
qed

subsection \<open>The queue and the order of the output\<close>

text \<open>All the invariants of the loop together, with a queue in descending weight.\<close>

definition steady :: "user list \<Rightarrow> task list \<Rightarrow> task list \<Rightarrow> state \<Rightarrow> bool" where
  "steady allUsers h0 ts s \<longleftrightarrow>
     linked allUsers s \<and> framed h0 ts s \<and> kahn ts (length h0) s \<and>
     settled allUsers ts (length h0) s \<and> sorted (map (idKey ts) (queue s))"

lemma steady_step:
  assumes dist: "distinct (map t_id ts)" and s: "steady allUsers h0 ts s"
    and ne: "queue s \<noteq> []" and st: "step z project allUsers s = Inr s'"
  shows "steady allUsers h0 ts s'"
proof -
  from s have l: "linked allUsers s" and f: "framed h0 ts s" and kh: "kahn ts (length h0) s"
    and se: "settled allUsers ts (length h0) s" and so: "sorted (map (idKey ts) (queue s))"
    by (simp_all add: steady_def)
  note l' = step_keeps_linked[OF l ne st]
  from ne obtain k rest where q: "queue s = k # rest" by (cases "queue s") auto
  have "sorted (map (idKey ts) (queue s'))"
    by (simp add: step_queue[OF dist f kh q st so])
  with l' framed_step[OF f ne st] kahn_step[OF dist f kh ne st] settled_step[OF dist f kh se ne st]
  show ?thesis by (simp add: steady_def)
qed

lemma steady_prepare:
  assumes dist: "distinct (map t_id ts)"
    and p: "prepare z today project ts allUsers os = Inr s"
  shows "steady allUsers (ts @ os) ts s"
proof -
  have "sorted (map (idKey ts) (queue s))" by (simp add: prepare_queue[OF dist p])
  with prepare_Inr(2)[OF p] framed_prepare[OF p] kahn_prepare[OF dist p] settled_prepare[OF p]
  show ?thesis by (simp add: steady_def)
qed

lemma steady_loop:
  assumes dist: "distinct (map t_id ts)" and s: "steady allUsers h0 ts s"
    and l: "loop z project allUsers s = Inr s'"
  shows "steady allUsers h0 ts s' \<and> queue s' = []"
proof (rule loop_invariant[where P = "steady allUsers h0 ts", OF _ s l])
  show "\<forall>s s1. steady allUsers h0 ts s \<and> queue s \<noteq> [] \<and> step z project allUsers s = Inr s1
          \<longrightarrow> steady allUsers h0 ts s1"
    using steady_step[OF dist] by blast
qed

text \<open>
  The queue is a preview of the output: its ids are processed in the order in which they
  stand in it. A pushed id is sorted in behind the ids of its weight and above, and the
  head is taken next, so no id ever overtakes one that stands before it.
\<close>

lemma queue_follows_output:
  assumes dist: "distinct (map t_id ts)"
  shows "steady allUsers h0 ts s \<Longrightarrow> loop z project allUsers s = Inr sF \<Longrightarrow>
         (\<exists>more. outputOf sF = outputOf s @ more) \<and> alongside (doneIds sF) (queue s)"
proof (induction z project allUsers s rule: loop.induct)
  case (1 z project allUsers s)
  note s = "1.prems"(1) and l = "1.prems"(2)
  show ?case
  proof (cases "queue s = []")
    case True
    with l show ?thesis by (simp add: loop.simps alongside_def)
  next
    case False
    then obtain k rest where q: "queue s = k # rest" by (cases "queue s") auto
    from False l obtain s1 where st: "step z project allUsers s = Inr s1"
      and l1: "loop z project allUsers s1 = Inr sF"
      by (auto simp: loop.simps[of z project allUsers s] split: sum.splits)
    from steady_step[OF dist s False st] have s1: "steady allUsers h0 ts s1" .
    from s have f: "framed h0 ts s" and kh: "kahn ts (length h0) s"
      and so: "sorted (map (idKey ts) (queue s))"
      by (simp_all add: steady_def)
    from "1.IH"[OF False st s1 l1] obtain more where
      more: "outputOf sF = outputOf s1 @ more" and al: "alongside (doneIds sF) (queue s1)"
      by blast
    from step_output[OF dist f kh q st] obtain i task' where
      i: "i < length ts" "t_id (ts ! i) = k" "heap s1 ! (length h0 + i) = task'"
      and out: "outputOf s1 = outputOf s @ [task']"
      by blast
    from s1 have f1: "framed h0 ts s1" by (simp add: steady_def)
    with i have "sameStatics task' (ts ! i)" unfolding framed_def by blast
    with i have tk: "t_id task' = k" by (simp add: sameStatics_def)
    have dF: "doneIds sF = doneIds s @ k # map t_id more"
      by (simp add: doneIds_output more out tk)
    from steady_loop[OF dist s l] have "distinct (doneIds sF)"
      by (simp add: steady_def kahn_def)
    then have kn: "k \<notin> set (map t_id more)" "k \<notin> set (doneIds s)" by (simp_all add: dF)
    from kh q have rd: "set rest \<inter> set (doneIds s) = {}" "k \<notin> set rest"
      by (auto simp: kahn_def)
    note sq = step_queue[OF dist f kh q st so]
    from s1 have "distinct (queue s1)" by (simp add: steady_def kahn_def)
    then have dj: "set rest \<inter> set (released ts (set (doneIds s)) k) = {}"
      by (simp add: sq)
    from so q have "sorted (map (idKey ts) rest)" by simp
    from alongside_rest[OF al[unfolded sq] this dj] have ar: "alongside (doneIds sF) rest" .
    have "filter (\<lambda>x. x \<in> set (k # rest)) (doneIds sF)
            = filter (\<lambda>x. x \<in> set (k # rest)) (doneIds s)
              @ k # filter (\<lambda>x. x \<in> set (k # rest)) (map t_id more)"
      by (simp add: dF)
    also have "filter (\<lambda>x. x \<in> set (k # rest)) (doneIds s) = []"
      using rd kn by (auto simp: filter_empty_conv)
    also have "filter (\<lambda>x. x \<in> set (k # rest)) (map t_id more)
                 = filter (\<lambda>x. x \<in> set rest) (map t_id more)"
      by (rule filter_cong[OF refl]) (use kn in auto)
    also have "filter (\<lambda>x. x \<in> set rest) (map t_id more) = rest"
    proof -
      have "filter (\<lambda>x. x \<in> set rest) (doneIds s) = []"
        using rd by (auto simp: filter_empty_conv)
      then have "filter (\<lambda>x. x \<in> set rest) (doneIds sF) = filter (\<lambda>x. x \<in> set rest) (map t_id more)"
        using rd(2) by (simp add: dF)
      with ar show ?thesis by (simp add: alongside_def)
    qed
    finally have "alongside (doneIds sF) (k # rest)" by (simp add: alongside_def)
    with more out q show ?thesis by simp
  qed
qed

subsection \<open>Processing a task again\<close>

text \<open>
  A task that has been processed with given cursors and a given floor is a fixed point of
  the processing: from its rewritten fields the same user is chosen, the same conflicts
  are reported, and the same dates and booking are written.
\<close>

lemma commit_again:
  "commitOf z project ua fl b task = (task', ua') \<Longrightarrow>
   commitOf z project ua fl b task' = (task', ua')"
  by (auto simp: commitOf_def Let_def split: option.splits if_splits)

lemma chooseUser_cong:
  "requiredSpecialty a = requiredSpecialty b \<Longrightarrow> name a = name b \<Longrightarrow>
   assignedTo a = assignedTo b \<Longrightarrow>
   chooseUser allUsers ua fl a = chooseUser allUsers ua fl b"
  by (simp add: chooseUser_def
      cong: option.case_cong if_cong list.case_cong sum.case_cong)

lemma choose_again:
  assumes c: "chooseUser allUsers ua fl task = Inr (b, cs)"
    and m: "commitOf z project ua fl b task = (task', ua')"
  shows "chooseUser allUsers ua fl task' = Inr (b, cs)"
proof -
  from commitOf_statics[OF m] have st: "requiredSpecialty task' = requiredSpecialty task"
    "name task' = name task"
    by (simp_all add: sameStatics_def)
  from m have a: "assignedTo task' = (if truthy b then b else assignedTo task)"
    by (auto simp: commitOf_def Let_def split: option.splits if_splits)
  show ?thesis
  proof (cases "b = assignedTo task")
    case True
    with a have "assignedTo task' = assignedTo task" by simp
    from chooseUser_cong[OF st this] c show ?thesis by simp
  next
    case False
    with c obtain x c0 cs0 cands where x: "requiredSpecialty task = Some x" "x \<noteq> []"
      "filter (satisfies x) allUsers = c0 # cs0" "sortCandidates ua (c0 # cs0) = Inr cands"
      "\<not> keepCurrent ua fl cands (assignedTo task)" "b = Some (u_id (hd cands))" "cs = []"
      by (auto simp: chooseUser_def split: option.splits if_splits list.splits sum.splits)
    show ?thesis
    proof (cases "truthy b")
      case True
      with a x(6) have "assignedTo task' = Some (u_id (hd cands))" by simp
      with x st show ?thesis by (simp add: chooseUser_def)
    next
      case False
      with a have "assignedTo task' = assignedTo task" by simp
      from chooseUser_cong[OF st this] c show ?thesis by simp
    qed
  qed
qed

text \<open>The clones behind the dependencies of a task whose dependencies in the task set
  are processed: the output tasks that the dependencies name.\<close>

lemma dep_clones:
  assumes dist: "distinct (map t_id ts)" and f: "framed h0 ts s" and kh: "kahn ts (length h0) s"
    and i: "i < length ts" and pz: "pending ts (set (doneIds s)) (ts ! i) = 0"
  shows "(\<lambda>r. heap s ! r) ` {r. \<exists>d \<in> set (dependencies (ts ! i)). taskMap s d = Some r}
           = {d \<in> set (outputOf s). t_id d \<in> set (dependencies (ts ! i))}" (is "?L = ?R")
proof (intro set_eqI iffI)
  let ?b = "length h0"
  let ?ds = "dependencies (ts ! i)"
  fix t assume "t \<in> ?L"
  then obtain r d where r: "d \<in> set ?ds" "taskMap s d = Some r" "t = heap s ! r" by auto
  note fr = framed_taskMap[OF f r(2)]
  then have "d \<in> t_id ` set ts" by auto
  with pz r(1) have "d \<in> set (doneIds s)" by (auto simp: pending_zero)
  with fr have "t_id (ts ! (r - ?b)) \<in> set (doneIds s)" by simp
  from output_of_done[OF f kh fr(2) this] fr(1) have "t \<in> set (outputOf s)"
    by (simp add: r(3) result_output)
  moreover from f fr have "sameStatics (heap s ! (?b + (r - ?b))) (ts ! (r - ?b))"
    unfolding framed_def by blast
  with fr r have "t_id t = d" by (simp add: sameStatics_def)
  ultimately show "t \<in> ?R" using r(1) by simp
next
  let ?b = "length h0"
  let ?ds = "dependencies (ts ! i)"
  fix t assume "t \<in> ?R"
  then have t: "t \<in> set (optimizedTasks (resultOf s))" "t_id t \<in> set ?ds"
    by (simp_all add: result_output)
  from output_task[OF f t(1)] obtain j where j: "j < length ts" "t = heap s ! (?b + j)"
    "sameStatics t (ts ! j)" by blast
  from kh j(1) have "taskMap s (t_id (ts ! j)) = Some (?b + j)" by (simp add: kahn_def)
  with j t(2) show "t \<in> ?L" by (auto simp: sameStatics_def)
qed

text \<open>The floor of such a task, and whether an \<^verbatim>\<open>addDays\<close> of its floor throws, read from
  the output.\<close>

lemma floor_from_output:
  assumes dist: "distinct (map t_id ts)" and f: "framed h0 ts s" and kh: "kahn ts (length h0) s"
    and i: "i < length ts" and pz: "pending ts (set (doneIds s)) (ts ! i) = 0"
  shows "floorOf z s d0 (dependencies (ts ! i))
           = Max (insert d0 ((\<lambda>d. endDay z (startDate d) (duration d)) `
                    {d \<in> set (outputOf s). t_id d \<in> set (dependencies (ts ! i))}))"
proof -
  let ?ds = "dependencies (ts ! i)"
  from dep_clones[OF dist f kh i pz]
  have "(\<lambda>d. endDay z (startDate d) (duration d)) ` {d \<in> set (outputOf s). t_id d \<in> set ?ds}
      = (\<lambda>r. endDay z (startDate (heap s ! r)) (duration (heap s ! r))) ` {r. \<exists>d \<in> set ?ds. taskMap s d = Some r}"
    by (simp add: image_image[symmetric, of "\<lambda>d. endDay z (startDate d) (duration d)" "\<lambda>r. heap s ! r"]
        del: image_image)
  then show ?thesis
    by (simp add: floorOf_Max)
qed

lemma floorOK_from_output:
  assumes dist: "distinct (map t_id ts)" and f: "framed h0 ts s" and kh: "kahn ts (length h0) s"
    and i: "i < length ts" and pz: "pending ts (set (doneIds s)) (ts ! i) = 0"
  shows "floorOK z s (dependencies (ts ! i)) \<longleftrightarrow>
           (\<forall>d \<in> set (outputOf s). t_id d \<in> set (dependencies (ts ! i)) \<longrightarrow>
              inRange z (startDate d) (duration d))"
proof -
  let ?ds = "dependencies (ts ! i)"
  have "floorOK z s ?ds \<longleftrightarrow>
          (\<forall>t \<in> (\<lambda>r. heap s ! r) ` {r. \<exists>d \<in> set ?ds. taskMap s d = Some r}.
             inRange z (startDate t) (duration t))"
    unfolding floorOK_def by blast
  then show ?thesis
    unfolding dep_clones[OF dist f kh i pz] by auto
qed

lemma commitOK_statics:
  "duration a = duration b \<Longrightarrow>
   commitOK z project ua fl bu a = commitOK z project ua fl bu b"
  by (cases bu) (simp_all add: commitOK_def)

lemma floorOK_queue [simp]: "floorOK z (s\<lparr>queue := q\<rparr>) ds = floorOK z s ds"
  by (simp add: floorOK_def)

text \<open>An iteration returns when the \<^verbatim>\<open>addDays\<close> of the floor and of the booking do not
  throw.\<close>

lemma step_returns:
  assumes l: "linked allUsers s" and q: "queue s = k # rest" and r: "taskMap s k = Some r"
    and fo: "floorOK z s (dependencies (heap s ! r))"
    and co: "\<And>b cs. chooseUser allUsers (userAvailability s)
               (floorOf z s (p_startDate project) (dependencies (heap s ! r))) (heap s ! r)
               = Inr (b, cs) \<Longrightarrow>
             commitOK z project (userAvailability s)
               (floorOf z s (p_startDate project) (dependencies (heap s ! r))) b (heap s ! r)"
  shows "\<exists>s'. step z project allUsers s = Inr s'"
proof -
  let ?s0 = "s\<lparr>queue := rest\<rparr>"
  have "\<exists>s1. assignTask z project allUsers ?s0 r = Inr s1"
  proof (rule assignTask_ok)
    show "u_id ` set allUsers \<subseteq> dom (userAvailability ?s0)"
      using l by (simp add: linked_def)
    show "floorOK z ?s0 (dependencies (heap ?s0 ! r))" using fo by simp
    fix b cs
    assume "chooseUser allUsers (userAvailability ?s0)
        (floorOf z ?s0 (p_startDate project) (dependencies (heap ?s0 ! r))) (heap ?s0 ! r)
        = Inr (b, cs)"
    then show "commitOK z project (userAvailability ?s0)
        (floorOf z ?s0 (p_startDate project) (dependencies (heap ?s0 ! r))) b (heap ?s0 ! r)"
      using co[of b cs] by simp
  qed
  then obtain s1 where "assignTask z project allUsers ?s0 r = Inr s1" by blast
  from step_after_assign[OF l q r this] show ?thesis by blast
qed

subsection \<open>The output as an input\<close>

text \<open>
  What the output \<open>out\<close> of a run on \<open>ts\<close> is as a task list of its own: its ids are
  pairwise different, each of its tasks differs from a task of \<open>ts\<close> in \<^verbatim>\<open>startDate\<close> and
  \<^verbatim>\<open>assignedTo\<close> at most, and a dependency that names a task of \<open>ts\<close> names a task of \<open>out\<close>.
\<close>

definition restates :: "task list \<Rightarrow> task list \<Rightarrow> bool" where
  "restates ts out \<longleftrightarrow>
     distinct (map t_id out) \<and>
     (\<forall>t' \<in> set out. \<exists>t \<in> set ts. sameStatics t' t) \<and>
     (\<forall>t' \<in> set out. \<forall>d \<in> set (dependencies t'). d \<in> t_id ` set ts \<longrightarrow> d \<in> t_id ` set out)"

lemma output_restates:
  assumes f: "framed h0 ts s" and kh: "kahn ts (length h0) s"
  shows "restates ts (outputOf s)"
  unfolding restates_def
proof (intro conjI ballI impI)
  show "distinct (map t_id (outputOf s))"
    using kh by (simp add: kahn_def doneIds_output)
next
  fix t' assume "t' \<in> set (outputOf s)"
  then have "t' \<in> set (optimizedTasks (resultOf s))" by (simp add: result_output)
  from output_task[OF f this] show "\<exists>t \<in> set ts. sameStatics t' t"
    by (auto intro: nth_mem)
next
  fix t' d assume t': "t' \<in> set (outputOf s)" and d: "d \<in> set (dependencies t')"
    "d \<in> t_id ` set ts"
  from t' have "t' \<in> set (optimizedTasks (resultOf s))" by (simp add: result_output)
  from output_task[OF f this] obtain i where i: "i < length ts"
    "t_id (ts ! i) \<in> set (doneIds s)" "sameStatics t' (ts ! i)" by blast
  from kahn_done_closed[OF kh _ i(2)] i(1) have "pending ts (set (doneIds s)) (ts ! i) = 0"
    by simp
  with d i(3) have "d \<in> set (doneIds s)" by (auto simp: pending_zero sameStatics_def)
  then show "d \<in> t_id ` set (outputOf s)" by (simp add: doneIds_output)
qed

lemma restates_task:
  assumes dist: "distinct (map t_id ts)" and r: "restates ts out"
    and t: "t' \<in> set out" "t \<in> set ts" "t_id t = t_id t'"
  shows "sameStatics t' t"
proof -
  from r t(1) obtain t0 where t0: "t0 \<in> set ts" "sameStatics t' t0"
    by (auto simp: restates_def)
  with t have "t_id t0 = t_id t" by (simp add: sameStatics_def)
  with dist t0(1) t(2) have "t0 = t" by (auto simp: distinct_map inj_on_def)
  with t0 show ?thesis by simp
qed

lemma restates_pending:
  assumes r: "restates ts out" and t: "t' \<in> set out" "sameStatics t' t"
  shows "pending out D t' = pending ts D t"
proof -
  have sub: "t_id ` set out \<subseteq> t_id ` set ts"
  proof
    fix x assume "x \<in> t_id ` set out"
    then obtain a where a: "a \<in> set out" "x = t_id a" by auto
    with r obtain b where "b \<in> set ts" "sameStatics a b" by (auto simp: restates_def)
    with a show "x \<in> t_id ` set ts" by (auto simp: sameStatics_def)
  qed
  have "filter (\<lambda>d. d \<in> t_id ` set out \<and> d \<notin> D) (dependencies t')
          = filter (\<lambda>d. d \<in> t_id ` set ts \<and> d \<notin> D) (dependencies t')"
  proof (rule filter_cong[OF refl])
    fix d assume "d \<in> set (dependencies t')"
    with r t(1) have "d \<in> t_id ` set ts \<longrightarrow> d \<in> t_id ` set out"
      unfolding restates_def by blast
    with sub show "(d \<in> t_id ` set out \<and> d \<notin> D) = (d \<in> t_id ` set ts \<and> d \<notin> D)" by auto
  qed
  with t(2) show ?thesis by (simp add: pending_def sameStatics_def)
qed

lemma restates_key:
  assumes dist: "distinct (map t_id ts)" and r: "restates ts out"
    and x: "x \<in> t_id ` set out"
  shows "idKey out x = idKey ts x"
proof -
  from x obtain t' where t': "t' \<in> set out" "x = t_id t'" by auto
  with r obtain t where t: "t \<in> set ts" "sameStatics t' t" by (auto simp: restates_def)
  from r have "distinct (map t_id out)" by (simp add: restates_def)
  from taskOf_in[OF this t'(1)] taskOf_in[OF dist t(1)] t(2) t'(2) show ?thesis
    by (simp add: idKey_def sameStatics_def)
qed

lemma restates_filter:
  assumes dist: "distinct (map t_id ts)" and r: "restates ts out"
    and Q: "\<And>t t'. t \<in> set ts \<Longrightarrow> t' \<in> set out \<Longrightarrow> sameStatics t' t \<Longrightarrow> Q' t' = Q t"
  shows "set (map t_id (filter Q' out)) = set (map t_id (filter Q ts)) \<inter> t_id ` set out"
proof (intro set_eqI iffI)
  fix x assume "x \<in> set (map t_id (filter Q' out))"
  then obtain t' where t': "t' \<in> set out" "Q' t'" "x = t_id t'" by auto
  with r obtain t where t: "t \<in> set ts" "sameStatics t' t" by (auto simp: restates_def)
  from Q[OF t(1) t'(1) t(2)] t'(2) have "Q t" by simp
  moreover have "t_id t = x" using t(2) t'(3) by (simp add: sameStatics_def)
  ultimately have "x \<in> set (map t_id (filter Q ts))" using t(1) by force
  moreover have "x \<in> t_id ` set out" using t'(1,3) by simp
  ultimately show "x \<in> set (map t_id (filter Q ts)) \<inter> t_id ` set out" by simp
next
  fix x assume "x \<in> set (map t_id (filter Q ts)) \<inter> t_id ` set out"
  then obtain t t' where t: "t \<in> set ts" "Q t" "x = t_id t" and t': "t' \<in> set out" "x = t_id t'"
    by auto
  from restates_task[OF dist r t'(1) t(1)] t(3) t'(2) have "sameStatics t' t" by simp
  from Q[OF t(1) t'(1) this] t(2) have "Q' t'" by simp
  with t' show "x \<in> set (map t_id (filter Q' out))" by auto
qed

lemma restates_released:
  assumes dist: "distinct (map t_id ts)" and r: "restates ts out"
  shows "set (released out D k) = set (released ts D k) \<inter> t_id ` set out"
  unfolding released_def
proof (rule restates_filter[OF dist r])
  fix t t' assume "t \<in> set ts" "t' \<in> set out" "sameStatics t' t"
  with restates_pending[OF r, of t' t "insert k D"]
  show "(k \<in> set (dependencies t') \<and> pending out (insert k D) t' = 0)
          = (k \<in> set (dependencies t) \<and> pending ts (insert k D) t = 0)"
    by (simp add: sameStatics_def)
qed

lemma restates_roots:
  assumes dist: "distinct (map t_id ts)" and r: "restates ts out"
  shows "set (map t_id (filter (\<lambda>t. pending out {} t = 0) out))
           = set (map t_id (filter (\<lambda>t. pending ts {} t = 0) ts)) \<inter> t_id ` set out"
proof (rule restates_filter[OF dist r])
  fix t t' assume "t \<in> set ts" "t' \<in> set out" "sameStatics t' t"
  with restates_pending[OF r, of t' t "{}"]
  show "(pending out {} t' = 0) = (pending ts {} t = 0)" by simp
qed

lemma alongside_subset: "alongside L q \<Longrightarrow> set q \<subseteq> set L"
  unfolding alongside_def by (metis filter_is_subset)

text \<open>
  The loop on the output of a run, started where the loop of that run was started, goes
  through the same queues, cursors and output tasks.
\<close>

lemma rerun_loop:
  assumes dist: "distinct (map t_id ts)"
  shows "steady allUsers h0 ts s1 \<Longrightarrow> loop z project allUsers s1 = Inr sF \<Longrightarrow>
         steady allUsers h1 (outputOf sF) s2 \<Longrightarrow> queue s2 = queue s1 \<Longrightarrow>
         outputOf s2 = outputOf s1 \<Longrightarrow> userAvailability s2 = userAvailability s1 \<Longrightarrow>
         \<exists>sF2. loop z project allUsers s2 = Inr sF2 \<and> outputOf sF2 = outputOf sF \<and>
               steady allUsers h1 (outputOf sF) sF2"
proof (induction z project allUsers s1 arbitrary: s2 rule: loop.induct)
  case (1 z project allUsers s1)
  note s1 = "1.prems"(1) and l = "1.prems"(2) and s2 = "1.prems"(3)
    and qe = "1.prems"(4) and oe = "1.prems"(5) and ue = "1.prems"(6)
  let ?P = "outputOf sF"
  from steady_loop[OF dist s1 l] have sF: "steady allUsers h0 ts sF" by simp
  then have "framed h0 ts sF" "kahn ts (length h0) sF" by (simp_all add: steady_def)
  then have rs: "restates ts ?P" by (rule output_restates)
  then have distP: "distinct (map t_id ?P)" by (simp add: restates_def)
  show ?case
  proof (cases "queue s1 = []")
    case True
    with l have "sF = s1" by (simp add: loop.simps)
    moreover from True qe have "loop z project allUsers s2 = Inr s2" by (simp add: loop.simps)
    ultimately show ?thesis using oe s2 by simp
  next
    case False
    then obtain k rest where q1: "queue s1 = k # rest" by (cases "queue s1") auto
    with qe have q2: "queue s2 = k # rest" by simp
    from False l obtain s1' where st1: "step z project allUsers s1 = Inr s1'"
      and l': "loop z project allUsers s1' = Inr sF"
      by (auto simp: loop.simps[of z project allUsers s1] split: sum.splits)
    from steady_step[OF dist s1 False st1] have s1': "steady allUsers h0 ts s1'" .
    from q2 have ne2: "queue s2 \<noteq> []" by simp
    from s1 have f1: "framed h0 ts s1" and kh1: "kahn ts (length h0) s1"
      and se1: "settled allUsers ts (length h0) s1" and so1: "sorted (map (idKey ts) (queue s1))"
      by (simp_all add: steady_def)
    from s2 have f2: "framed h1 ?P s2" and kh2: "kahn ?P (length h1) s2"
      and se2: "settled allUsers ?P (length h1) s2" and so2: "sorted (map (idKey ?P) (queue s2))"
      by (simp_all add: steady_def)
    have de: "doneIds s2 = doneIds s1" by (simp add: doneIds_output oe)
    let ?D = "set (doneIds s1)"
    let ?ps = "p_startDate project"
    from step_output[OF dist f1 kh1 q1 st1] obtain i1 b cs task' ua' where
      i1: "i1 < length ts" "t_id (ts ! i1) = k" "k \<notin> ?D"
      and c1: "chooseUser allUsers (userAvailability s1)
                 (floorOf z s1 ?ps (dependencies (ts ! i1))) (heap s1 ! (length h0 + i1))
                 = Inr (b, cs)"
      and m1: "commitOf z project (userAvailability s1)
                 (floorOf z s1 ?ps (dependencies (ts ! i1))) b (heap s1 ! (length h0 + i1))
                 = (task', ua')"
      and p1: "pending ts ?D (ts ! i1) = 0"
      and e1: "userAvailability s1' = ua'" "outputOf s1' = outputOf s1 @ [task']"
      and ok1: "floorOK z s1 (dependencies (ts ! i1))"
        "commitOK z project (userAvailability s1)
                 (floorOf z s1 ?ps (dependencies (ts ! i1))) b (heap s1 ! (length h0 + i1))"
      by blast
    from kh2 q2 obtain i2 where i2: "i2 < length ?P" "t_id (?P ! i2) = k"
      unfolding kahn_def by (auto simp: in_set_conv_nth)
    with kh2 have r2: "taskMap s2 k = Some (length h1 + i2)" by (auto simp: kahn_def)
    from kh2 have "\<forall>t \<in> set ?P. t_id t \<notin> set (doneIds s2) \<longrightarrow>
        (t_id t \<in> set (queue s2)) = (pending ?P (set (doneIds s2)) t = 0)"
      unfolding kahn_def by blast
    moreover from kh2 q2 have "k \<notin> set (doneIds s2)" by (auto simp: kahn_def)
    ultimately have p2: "pending ?P (set (doneIds s2)) (?P ! i2) = 0"
      using i2 q2 nth_mem[OF i2(1)] by auto
    from queue_follows_output[OF dist s1' l'] obtain more where
      more: "?P = outputOf s1' @ more" and al: "alongside (doneIds sF) (queue s1')"
      by blast
    have h1': "heap s1 ! (length h0 + i1) = ts ! i1"
      using se1 i1 by (simp add: settled_def)
    have h2': "heap s2 ! (length h1 + i2) = ?P ! i2"
      using se2 i2 i1(3) by (simp add: settled_def de)
    from commitOf_statics[OF m1] have ss: "sameStatics task' (ts ! i1)" by (simp add: h1')
    have "task' \<in> set ?P" by (subst more) (simp add: e1)
    moreover have "?P ! i2 \<in> set ?P" using i2(1) by simp
    moreover have "t_id task' = t_id (?P ! i2)" using ss i1 i2 by (simp add: sameStatics_def)
    ultimately have pt: "?P ! i2 = task'"
      using distP by (auto simp: distinct_map inj_on_def)
    have dp: "dependencies (?P ! i2) = dependencies (ts ! i1)"
      using ss by (simp add: pt sameStatics_def)
    have fl: "floorOf z s2 ?ps (dependencies (?P ! i2))
                = floorOf z s1 ?ps (dependencies (ts ! i1))"
    proof -
      have "floorOf z s2 ?ps (dependencies (?P ! i2))
              = Max (insert ?ps ((\<lambda>d. endDay z (startDate d) (duration d)) `
                       {d \<in> set (outputOf s2). t_id d \<in> set (dependencies (?P ! i2))}))"
        by (rule floor_from_output[OF distP f2 kh2 i2(1) p2])
      also have "\<dots> = Max (insert ?ps ((\<lambda>d. endDay z (startDate d) (duration d)) `
                       {d \<in> set (outputOf s1). t_id d \<in> set (dependencies (ts ! i1))}))"
        by (simp only: dp oe)
      also have "\<dots> = floorOf z s1 ?ps (dependencies (ts ! i1))"
        by (rule floor_from_output[OF dist f1 kh1 i1(1) p1, symmetric])
      finally show ?thesis .
    qed
    note ca = choose_again[OF c1 m1]
    have "\<exists>s2'. step z project allUsers s2 = Inr s2'"
    proof (rule step_returns[OF _ q2 r2])
      show "linked allUsers s2" using s2 by (simp add: steady_def)
      from ok1(1) have "\<forall>d \<in> set (outputOf s1). t_id d \<in> set (dependencies (ts ! i1)) \<longrightarrow>
          inRange z (startDate d) (duration d)"
        by (simp only: floorOK_from_output[OF dist f1 kh1 i1(1) p1])
      then have "\<forall>d \<in> set (outputOf s2). t_id d \<in> set (dependencies (?P ! i2)) \<longrightarrow>
          inRange z (startDate d) (duration d)"
        by (simp only: dp oe)
      then have "floorOK z s2 (dependencies (?P ! i2))"
        by (simp only: floorOK_from_output[OF distP f2 kh2 i2(1) p2])
      then show "floorOK z s2 (dependencies (heap s2 ! (length h1 + i2)))"
        by (simp add: h2')
      fix b' cs'
      assume "chooseUser allUsers (userAvailability s2)
          (floorOf z s2 ?ps (dependencies (heap s2 ! (length h1 + i2))))
          (heap s2 ! (length h1 + i2)) = Inr (b', cs')"
      then have "chooseUser allUsers (userAvailability s1)
          (floorOf z s1 ?ps (dependencies (ts ! i1))) task' = Inr (b', cs')"
        unfolding h2' fl unfolding ue pt .
      with ca have "b' = b" by simp
      moreover from ss have "duration task' = duration (heap s1 ! (length h0 + i1))"
        by (simp add: h1' sameStatics_def)
      ultimately show "commitOK z project (userAvailability s2)
          (floorOf z s2 ?ps (dependencies (heap s2 ! (length h1 + i2)))) b'
          (heap s2 ! (length h1 + i2))"
        using ok1(2) commitOK_statics[of task' "heap s1 ! (length h0 + i1)"]
        unfolding h2' fl unfolding ue pt by simp
    qed
    then obtain s2' where st2: "step z project allUsers s2 = Inr s2'" by blast
    from steady_step[OF distP s2 ne2 st2] have s2': "steady allUsers h1 ?P s2'" .
    from step_output[OF distP f2 kh2 q2 st2] obtain j2 b2 cs2 task2 ua2 where
      j2: "j2 < length ?P" "t_id (?P ! j2) = k"
      and c2: "chooseUser allUsers (userAvailability s2)
                 (floorOf z s2 ?ps (dependencies (?P ! j2))) (heap s2 ! (length h1 + j2))
                 = Inr (b2, cs2)"
      and m2: "commitOf z project (userAvailability s2)
                 (floorOf z s2 ?ps (dependencies (?P ! j2))) b2 (heap s2 ! (length h1 + j2))
                 = (task2, ua2)"
      and e2: "userAvailability s2' = ua2" "outputOf s2' = outputOf s2 @ [task2]"
      by blast
    from j2 i2 distP have "j2 = i2" by (auto simp: distinct_conv_nth)
    note c2' = c2[unfolded this, unfolded fl h2', unfolded ue pt]
    note m2' = m2[unfolded \<open>j2 = i2\<close>, unfolded fl h2', unfolded ue pt]
    from ca c2' have bc: "b2 = b" "cs2 = cs" by simp_all
    from commit_again[OF m1] m2' have tu: "task2 = task'" "ua2 = ua'"
      by (simp_all add: bc)
    have oe': "outputOf s2' = outputOf s1'" by (simp add: e1 e2 tu oe)
    have ue': "userAvailability s2' = userAvailability s1'" by (simp add: e1 e2 tu)
    note sq1 = step_queue[OF dist f1 kh1 q1 st1 so1]
    note sq2 = step_queue[OF distP f2 kh2 q2 st2 so2]
    have dF: "doneIds sF = map t_id ?P" by (rule doneIds_output)
    have "set (released ts ?D k) \<subseteq> set (queue s1')" by (simp add: sq1)
    with alongside_subset[OF al] have "set (released ts ?D k) \<subseteq> t_id ` set ?P"
      by (auto simp: dF)
    with restates_released[OF dist rs, of ?D k]
    have sr: "set (released ?P ?D k) = set (released ts ?D k)" by auto
    have "queue s2' = sort_key (idKey ?P) (rest @ released ?P ?D k)" by (simp add: sq2 de)
    also have "\<dots> = sort_key (idKey ts) (rest @ released ?P ?D k)"
    proof (rule sort_key_cong_set)
      fix x assume "x \<in> set (rest @ released ?P ?D k)"
      moreover from kh2 q2 have "set rest \<subseteq> t_id ` set ?P" by (auto simp: kahn_def)
      moreover have "set (released ?P ?D k) \<subseteq> t_id ` set ?P" by (auto simp: released_def)
      ultimately have "x \<in> t_id ` set ?P" by auto
      then show "idKey ?P x = idKey ts x" by (rule restates_key[OF dist rs])
    qed
    also have "\<dots> = sort_key (idKey ts) (rest @ released ts ?D k)"
    proof (rule sort_key_rearranged[where L = "doneIds sF"])
      show "distinct (doneIds sF)" using distP by (simp add: dF)
      show "alongside (doneIds sF) (sort_key (idKey ts) (rest @ released ts ?D k))"
        using al by (simp add: sq1)
      show "alongside (doneIds sF) (released ?P ?D k)"
        unfolding dF released_def by (rule alongside_map_filter[OF distP])
      show "set (released ?P ?D k) = set (released ts ?D k)" by (rule sr)
    qed
    finally have qe': "queue s2' = queue s1'" by (simp add: sq1)
    from "1.IH"[OF False st1 s1' l' s2' qe' oe' ue'] obtain sF2 where
      "loop z project allUsers s2' = Inr sF2" "outputOf sF2 = ?P" "steady allUsers h1 ?P sF2"
      by blast
    with ne2 st2 show ?thesis
      by (simp add: loop.simps[of z project allUsers s2])
  qed
qed

subsection \<open>The time zone in the result\<close>

text \<open>The zone of the host is read by \<^verbatim>\<open>addDays\<close> and nowhere else: two zones in which
  \<^verbatim>\<open>addDays\<close> is the same function give the same result.\<close>

lemma earliestStart_zone:
  "\<forall>d n. addDays z d n = addDays z' d n \<Longrightarrow>
   earliestStart z s d ds = earliestStart z' s d ds"
  by (induction ds arbitrary: d) (simp_all split: option.splits sum.splits)

lemma levelResources_zone:
  "\<forall>d n. addDays z d n = addDays z' d n \<Longrightarrow>
   levelResources z project ts ua = levelResources z' project ts ua"
  by (induction ts arbitrary: ua) (simp_all add: Let_def split: option.splits sum.splits)

lemma step_zone:
  assumes "\<forall>d n. addDays z d n = addDays z' d n"
  shows "step z project allUsers s = step z' project allUsers s"
proof -
  have c: "commitTask z = commitTask z'"
    using assms by (intro ext) (auto simp: commitTask_def Let_def split: option.splits)
  have e: "earliestStart z = earliestStart z'"
    by (intro ext) (rule earliestStart_zone[OF assms])
  have a: "assignTask z = assignTask z'"
    by (intro ext) (unfold assignTask_def c e, rule refl)
  show ?thesis by (unfold step_def a, rule refl)
qed

lemma loop_zone:
  "\<forall>d n. addDays z d n = addDays z' d n \<Longrightarrow>
   loop z project allUsers s = loop z' project allUsers s"
proof (induction z project allUsers s rule: loop.induct)
  case (1 z project allUsers s)
  show ?case
  proof (cases "queue s = []")
    case True
    then show ?thesis by (simp add: loop.simps)
  next
    case False
    note e = step_zone[OF "1.prems", of project allUsers s]
    show ?thesis
    proof (cases "step z project allUsers s")
      case (Inl err)
      with e have "step z' project allUsers s = Inl err" by simp
      with False Inl show ?thesis
        by (simp add: loop.simps[of z project allUsers s] loop.simps[of z' project allUsers s])
    next
      case (Inr s1)
      with e have "step z' project allUsers s = Inr s1" by simp
      with "1.IH"[OF False Inr "1.prems"] False Inr show ?thesis
        by (simp add: loop.simps[of z project allUsers s] loop.simps[of z' project allUsers s])
    qed
  qed
qed

lemma scheduleProject_zone:
  assumes "\<forall>d n. addDays z d n = addDays z' d n"
  shows "scheduleProject z today project projectTasks allUsers existingGlobalTasks
           = scheduleProject z' today project projectTasks allUsers existingGlobalTasks"
proof -
  have "prepare z today project projectTasks allUsers existingGlobalTasks
          = prepare z' today project projectTasks allUsers existingGlobalTasks"
    by (simp add: prepare_def levelResources_zone[OF assms])
  then have "run z today project projectTasks allUsers existingGlobalTasks
          = run z' today project projectTasks allUsers existingGlobalTasks"
    by (simp add: run_def loop_zone[OF assms] split: sum.splits)
  then show ?thesis by (simp add: scheduleProject_def)
qed

lemma addDays_fixedZone: "addDays (fixedZone c) d n = addDays (fixedZone c') d n"
  by (simp add: addDays_def fixedZone_def Let_def)

section \<open>Concrete inputs\<close>

definition exTask :: "string \<Rightarrow> string list \<Rightarrow> int \<Rightarrow> string option \<Rightarrow> string option \<Rightarrow> priority \<Rightarrow> task" where
  "exTask i deps dur a sp pr =
     \<lparr>t_id = i, projectId = ''P'', name = i, dependencies = deps, startDate = 0,
      duration = dur, assignedTo = a, requiredSpecialty = sp, priority = pr\<rparr>"

definition exProject :: project where
  "exProject = \<lparr>p_id = ''P'', p_startDate = 100\<rparr>"

definition exUser :: "string \<Rightarrow> string list \<Rightarrow> user" where
  "exUser i sp = \<lparr>u_id = i, specialties = sp, role = ''Staff''\<rparr>"

text \<open>Europe/Madrid between the clock changes of October 2023 and October 2024: one hour
  ahead of UTC until 2024-03-31 01:00 UTC (02:00 local time), two hours from then on. A
  local time in the hour that the change skips is read by the offset before the change.
  The day 2024-03-31 has the number 19813.\<close>

definition exMadrid :: zone where
  "exMadrid =
     \<lparr>utcOffset = (\<lambda>t. if t < 1711846800000 then 3600000 else 7200000),
      localOffset = (\<lambda>t. if t < 1711854000000 then 3600000 else 7200000)\<rparr>"

definition exSpring :: project where
  "exSpring = \<lparr>p_id = ''P'', p_startDate = 19813\<rparr>"

lemmas schedule_eval =
  scheduleProject_def run_def prepare_def initialState_def initialQueue_def degreeOr0_def
  sortQueue_def queueWeight_def loop.simps step_def assignTask_def chooseUser_def
  commitTask_def satisfies_def sortCandidates_def keepCurrent_def Let_def maxDate_def
  addDays_def msPerDay_def maxTime_def utc_def fixedZone_def exMadrid_def
  resultOf_def conflictMessage_def exTask_def exProject_def exSpring_def exUser_def

definition exQueueState :: state where
  "exQueueState =
     \<lparr>heap = [exTask ''a'' [] 1 None None Media, exTask ''b'' [] 1 None None Critica,
              exTask ''c'' [] 1 None None Media],
      taskMap = [''a'' \<mapsto> 0, ''b'' \<mapsto> 1, ''c'' \<mapsto> 2],
      outgoingEdges = Map.empty, incomingDegree = [], userAvailability = Map.empty,
      queue = [], optimizedRefs = [], conflictLog = []\<rparr>"

definition exDangling :: "task list" where
  "exDangling =
     [exTask ''T1'' [''ZZ''] 2 None None Media, exTask ''T2'' [''T1'', ''ZZ''] 3 None None Alta]"



definition exChain :: "task list" where
  "exChain =
     [exTask ''Z'' [] 5 None None Media, exTask ''A'' [''Z''] 3 None None Media,
      exTask ''B'' [''A''] 1 None None Media]"

definition exUnstaffed :: "task list" where
  "exUnstaffed =
     [exTask ''T1'' [] 2 None None Critica,
      exTask ''T2'' [''T1''] 3 (Some ''U9'') (Some ''Electrician'') Media,
      exTask ''T3'' [] 1 None (Some ''Plumber'') Baja]"

definition exElectricians :: "user list" where
  "exElectricians = [exUser ''U1'' [''E''], exUser ''U2'' [''E''], exUser ''U3'' [''E'']]"

definition exAssignState :: state where
  "exAssignState =
     \<lparr>heap = [exTask ''T1'' [] 2 (Some ''U1'') (Some ''E'') Media],
      taskMap = [''T1'' \<mapsto> 0], outgoingEdges = Map.empty, incomingDegree = [],
      userAvailability = [''U1'' \<mapsto> 120, ''U2'' \<mapsto> 110, ''U3'' \<mapsto> 110],
      queue = [], optimizedRefs = [], conflictLog = []\<rparr>"

definition exShared :: "task list" where
  "exShared =
     [exTask ''T1'' [] 2 (Some ''U1'') None Media, exTask ''T2'' [] 3 (Some ''U1'') None Critica,
      exTask ''T3'' [] 1 (Some ''U1'') None Baja]"

definition exUnknown :: "task list" where
  "exUnknown =
     [exTask ''T1'' [] 2 (Some ''X9'') None Media, exTask ''T2'' [] 3 (Some ''X9'') None Media]"

definition exRerun :: "task list" where
  "exRerun =
     [exTask ''T1'' [] 2 None (Some ''E'') Media,
      exTask ''T2'' [''T1''] 3 None (Some ''E'') Alta,
      exTask ''T3'' [] 1 (Some ''U2'') (Some ''E'') Baja]"

section \<open>The claims\<close>

subsection \<open>C9: determinism and tie-breaks\<close>

text \<open>
  C9 as stated: with the same project, tasks, users and tasks of other projects, two
  invocations return the same result, and the result depends on nothing else. Line 64
  reads the clock: the same four arguments on two different days give two different
  schedules. Line 16 works in the local time of the host: the same four arguments on the
  same day give two different schedules in UTC and in Europe/Madrid, where the day after
  2024-03-31 (day 19813) is computed as 2024-03-31 again.
\<close>

theorem clock_counterexample:
  "scheduleProject utc 100 exProject [exTask ''T1'' [] 2 None (Some ''E'') Media]
     [exUser ''U1'' [''E'']] []
   \<noteq> scheduleProject utc 200 exProject [exTask ''T1'' [] 2 None (Some ''E'') Media]
     [exUser ''U1'' [''E'']] [] \<and>
   map (\<lambda>t. (t_id t, startDate t))
     (optimizedTasks (projr (scheduleProject utc 19813 exSpring
        [exTask ''A'' [] 1 None None Media, exTask ''B'' [''A''] 1 None None Media] [] [])))
     = [(''A'', 19813), (''B'', 19814)] \<and>
   map (\<lambda>t. (t_id t, startDate t))
     (optimizedTasks (projr (scheduleProject exMadrid 19813 exSpring
        [exTask ''A'' [] 1 None None Media, exTask ''B'' [''A''] 1 None None Media] [] [])))
     = [(''A'', 19813), (''B'', 19813)]"
  by (simp add: schedule_eval)

text \<open>
  C9, amended: the result is a function of the four arguments, of the current date and
  of the time zone of the host (\<open>scheduleProject\<close> has these six parameters and reads
  nothing else, so two invocations that agree on them return the same result). The date
  is read once per user of \<^verbatim>\<open>allUsers\<close>, so with no users it does not matter; the zone is
  read by \<^verbatim>\<open>addDays\<close> only, so two zones with the same \<^verbatim>\<open>addDays\<close> give the same result.
  Every sort of the ready queue returns it in descending priority weight, and ids of
  equal weight keep the order in which they stood in the queue.
\<close>

theorem queue_sort_stable_descending:
  assumes "sortQueue s q = Inr q'"
  shows "(\<forall>w. filter (\<lambda>k. queueWeight s k = Some w) q'
              = filter (\<lambda>k. queueWeight s k = Some w) q) \<and>
         sorted_wrt (\<lambda>a b. \<exists>wa wb. queueWeight s a = Some wa \<and> queueWeight s b = Some wb
                                 \<and> wb \<le> wa) q' \<and>
         scheduleProject z today project projectTasks [] existingGlobalTasks
           = scheduleProject z today' project projectTasks [] existingGlobalTasks \<and>
         ((\<forall>d n. addDays z d n = addDays z' d n) \<longrightarrow>
            scheduleProject z today project projectTasks allUsers existingGlobalTasks
              = scheduleProject z' today project projectTasks allUsers existingGlobalTasks)"
  using sortQueue_stable[OF assms] sortQueue_sorted[OF assms] scheduleProject_zone[of z z']
  by (simp add: scheduleProject_def run_def prepare_def)

theorem queue_sort_stable_descending_witness:
  "sortQueue exQueueState [''a'', ''b'', ''c''] = Inr [''b'', ''a'', ''c''] \<and>
   filter (\<lambda>k. queueWeight exQueueState k = Some 2) [''b'', ''a'', ''c''] = [''a'', ''c''] \<and>
   scheduleProject utc 100 exProject exChain [] []
     = scheduleProject (fixedZone 3600000) 100 exProject exChain [] []"
proof -
  have h: "sortQueue exQueueState [''a'', ''b'', ''c''] = Inr [''b'', ''a'', ''c'']"
    by (simp add: sortQueue_def queueWeight_def exQueueState_def exTask_def)
  have z: "\<forall>d n. addDays utc d n = addDays (fixedZone 3600000) d n"
    unfolding utc_def by (simp add: addDays_fixedZone[of 0 _ _ 3600000])
  note t = queue_sort_stable_descending[OF h, of utc 100 exProject exChain "[]" 100
      "fixedZone 3600000" "[]"]
  from t have "filter (\<lambda>k. queueWeight exQueueState k = Some 2) [''b'', ''a'', ''c'']
          = filter (\<lambda>k. queueWeight exQueueState k = Some 2) [''a'', ''b'', ''c'']"
    by blast
  moreover from t z have "scheduleProject utc 100 exProject exChain [] []
     = scheduleProject (fixedZone 3600000) 100 exProject exChain [] []"
    by blast
  ultimately show ?thesis using h
    by (simp add: queueWeight_def exQueueState_def exTask_def)
qed

subsection \<open>C3: completeness on acyclic inputs\<close>

text \<open>
  C3. The task ids are pairwise different (the data model's unique identifier) and the
  dependency graph restricted to the task set, \<open>dependsOn\<close>, has no cycle. Then the ids of
  the output that the function returns are the ids of the input, each once, so the output
  has as many tasks as the input. A dependency id outside the task set is no edge of
  \<open>dependsOn\<close>: it neither blocks nor drops a task.
\<close>

theorem acyclic_input_complete:
  assumes "distinct (map t_id projectTasks)" and "acyclic (dependsOn projectTasks)"
    and "scheduleProject z today project projectTasks allUsers existingGlobalTasks = Inr r"
  shows "length (optimizedTasks r) = length projectTasks \<and>
         distinct (map t_id (optimizedTasks r)) \<and>
         set (map t_id (optimizedTasks r)) = set (map t_id projectTasks)"
proof -
  from assms(3) obtain s where
    r: "run z today project projectTasks allUsers existingGlobalTasks = Inr s"
    and rs: "r = resultOf s"
    by (auto simp: scheduleProject_def split: sum.splits)
  from assms(2) have nb: "\<not> blocked projectTasks k" for k
    by (auto simp: blocked_def acyclic_def)
  from run_done_ids[OF assms(1) r] nb
  have d: "distinct (doneIds s)" "set (doneIds s) = t_id ` set projectTasks" by auto
  from d assms(1) have "length (doneIds s) = length (map t_id projectTasks)"
    by (metis distinct_card set_map)
  then have "length (optimizedTasks (resultOf s)) = length projectTasks"
    by (simp add: result_ids[symmetric])
  with d show ?thesis
    by (simp add: rs result_ids result_ids_set)
qed

theorem acyclic_input_complete_witness:
  "distinct (map t_id exDangling) \<and> acyclic (dependsOn exDangling) \<and>
   map t_id (optimizedTasks (projr (scheduleProject utc 100 exProject exDangling [] [])))
     = [''T1'', ''T2''] \<and>
   length (optimizedTasks (projr (scheduleProject utc 100 exProject exDangling [] []))) = length exDangling"
proof -
  have h1: "distinct (map t_id exDangling)"
    by (simp add: exDangling_def exTask_def)
  have h2: "acyclic (dependsOn exDangling)"
    by (rule acyclicI_order[where f = "\<lambda>k. if k = ''T1'' then 1 else (0::nat)"])
       (auto simp: dependsOn_def exDangling_def exTask_def)
  have e: "scheduleProject utc 100 exProject exDangling [] []
     = Inr (projr (scheduleProject utc 100 exProject exDangling [] []))"
    by (simp add: schedule_eval exDangling_def)
  from acyclic_input_complete[OF h1 h2 e]
  have l: "length (optimizedTasks (projr (scheduleProject utc 100 exProject exDangling [] [])))
             = length exDangling" by blast
  have "map t_id (optimizedTasks (projr (scheduleProject utc 100 exProject exDangling [] [])))
     = [''T1'', ''T2'']"
    by (simp add: schedule_eval exDangling_def)
  with h1 h2 l show ?thesis by simp
qed

subsection \<open>C6: failure semantics\<close>




subsection \<open>C7: the caller's objects\<close>

text \<open>
  C7. In the state in which the function returns, the cells of the caller's task objects
  (those of \<^verbatim>\<open>projectTasks\<close>, then those of the other projects) hold what they held at the
  call. Every reference of the output points behind them, to a cell allocated by the
  spread at line 44, and that cell agrees with the input task of the same position on
  every field but \<^verbatim>\<open>startDate\<close> and \<^verbatim>\<open>assignedTo\<close>; the returned \<^verbatim>\<open>optimizedTasks\<close> are the
  contents of these cells. The project and the users are passed by value in the
  embedding and so are the arrays: the function has no write on them (\<^verbatim>\<open>filter\<close> at line
  118 copies \<^verbatim>\<open>allUsers\<close> before the sort, and \<^verbatim>\<open>push\<close> at line 53 is on arrays of the
  function's own).
\<close>

theorem writes_land_on_clones:
  assumes r: "run z today project projectTasks allUsers existingGlobalTasks = Inr s"
  shows "scheduleProject z today project projectTasks allUsers existingGlobalTasks
           = Inr (resultOf s) \<and>
         take (length projectTasks + length existingGlobalTasks) (heap s)
           = projectTasks @ existingGlobalTasks \<and>
         (\<forall>r \<in> set (optimizedRefs s).
            length projectTasks + length existingGlobalTasks \<le> r \<and> r < length (heap s) \<and>
            sameStatics (heap s ! r)
              (projectTasks ! (r - (length projectTasks + length existingGlobalTasks))))"
proof -
  let ?b = "length projectTasks + length existingGlobalTasks"
  from run_framed[OF r] have f: "framed (projectTasks @ existingGlobalTasks) projectTasks s" .
  have "?b \<le> r \<and> r < length (heap s) \<and> sameStatics (heap s ! r) (projectTasks ! (r - ?b))"
    if "r \<in> set (optimizedRefs s)" for r
  proof -
    from f that have b: "?b \<le> r" "r < ?b + length projectTasks" "length (heap s) = ?b + length projectTasks"
      by (auto simp: framed_def)
    then have "r - ?b < length projectTasks" by simp
    with f have "sameStatics (heap s ! (?b + (r - ?b))) (projectTasks ! (r - ?b))"
      unfolding framed_def by simp
    with b show ?thesis by simp
  qed
  moreover from f have "take ?b (heap s) = projectTasks @ existingGlobalTasks"
    by (simp add: framed_def)
  ultimately show ?thesis
    using r by (auto simp: scheduleProject_def)
qed

theorem writes_land_on_clones_witness:
  "take 3 (heap (projr (run utc 100 exProject exDangling [exUser ''U1'' [''E'']]
                          [exTask ''O1'' [] 5 (Some ''U1'') None Baja])))
     = exDangling @ [exTask ''O1'' [] 5 (Some ''U1'') None Baja] \<and>
   optimizedRefs (projr (run utc 100 exProject exDangling [exUser ''U1'' [''E'']]
                          [exTask ''O1'' [] 5 (Some ''U1'') None Baja])) = [3, 4]"
proof -
  let ?os = "[exTask ''O1'' [] 5 (Some ''U1'') None Baja]"
  let ?us = "[exUser ''U1'' [''E'']]"
  have r: "run utc 100 exProject exDangling ?us ?os
             = Inr (projr (run utc 100 exProject exDangling ?us ?os))"
    by (simp add: schedule_eval exDangling_def)
  from writes_land_on_clones[OF r]
  have t: "take (length exDangling + length ?os) (heap (projr (run utc 100 exProject exDangling ?us ?os)))
             = exDangling @ ?os" by blast
  have "optimizedRefs (projr (run utc 100 exProject exDangling ?us ?os)) = [3, 4]"
    by (simp add: schedule_eval exDangling_def)
  with t show ?thesis by (simp add: exDangling_def numeral_3_eq_3)
qed

subsection \<open>C1: dependency ordering and project floor\<close>




subsection \<open>C4: staffing conflicts\<close>

text \<open>
  C4. The task ids are pairwise different; a task declares a required specialty when the
  field holds a non-empty string (line 117 tests its truthiness). The list \<^verbatim>\<open>conflicts\<close>
  is the concatenation, in the order of the output, of the contributions \<open>conflictsOf\<close> of
  the output tasks. For an output task that declares \<open>x\<close>: when no user has \<open>x\<close> among
  the specialties or as role, its contribution is the one string
  \<^verbatim>\<open>Falta perfil: x para tarea "name"\<close>, which contains \<open>x\<close> and the name, and its assignee
  is the one of the input task with its id; when a user satisfies \<open>x\<close>, its contribution
  is empty.
\<close>

theorem conflict_per_unstaffed_task:
  assumes "distinct (map t_id projectTasks)"
    and "scheduleProject z today project projectTasks allUsers existingGlobalTasks = Inr res"
  shows "conflicts res = concat (map (conflictsOf allUsers) (optimizedTasks res)) \<and>
         (\<forall>t \<in> set (optimizedTasks res). \<forall>x. requiredSpecialty t = Some x \<and> x \<noteq> [] \<longrightarrow>
            (if filter (satisfies x) allUsers = []
             then conflictsOf allUsers t
                    = [''Falta perfil: '' @ x @ '' para tarea '' @ [CHR 0x22] @ name t @ [CHR 0x22]] \<and>
                  (\<exists>t0 \<in> set projectTasks. t_id t0 = t_id t \<and> assignedTo t = assignedTo t0)
             else conflictsOf allUsers t = []))"
proof -
  let ?ts = projectTasks
  let ?h0 = "?ts @ existingGlobalTasks"
  from assms(2) obtain s where
    r: "run z today project ?ts allUsers existingGlobalTasks = Inr s" and res: "res = resultOf s"
    by (auto simp: scheduleProject_def split: sum.splits)
  from run_kahn[OF assms(1) r] have f: "framed ?h0 ?ts s" by simp
  from run_settled[OF assms(1) r] have se: "settled allUsers ?ts (length ?h0) s" .
  from se have a: "conflicts res = concat (map (conflictsOf allUsers) (optimizedTasks res))"
    by (simp add: res settled_def result_output[symmetric]) (simp add: resultOf_def)
  have b: "if filter (satisfies x) allUsers = []
             then conflictsOf allUsers t
                    = [''Falta perfil: '' @ x @ '' para tarea '' @ [CHR 0x22] @ name t @ [CHR 0x22]] \<and>
                  (\<exists>t0 \<in> set ?ts. t_id t0 = t_id t \<and> assignedTo t = assignedTo t0)
             else conflictsOf allUsers t = []"
    if t: "t \<in> set (optimizedTasks res)" and x: "requiredSpecialty t = Some x" "x \<noteq> []" for t x
  proof (cases "filter (satisfies x) allUsers = []")
    case True
    from output_task[OF f t[unfolded res]] obtain i where i: "i < length ?ts"
      "t = heap s ! (length ?h0 + i)" "t_id (?ts ! i) \<in> set (doneIds s)" "sameStatics t (?ts ! i)"
      by blast
    from i(4) x(1) have "requiredSpecialty (?ts ! i) = Some x"
      by (simp add: sameStatics_def)
    with True have "unconstrained allUsers (?ts ! i)"
      by (simp add: unconstrained_def)
    with se i have "assignedTo t = assignedTo (?ts ! i)" by (simp add: settled_def)
    moreover from i have "t_id (?ts ! i) = t_id t" "?ts ! i \<in> set ?ts"
      by (simp_all add: sameStatics_def)
    ultimately have "\<exists>t0 \<in> set ?ts. t_id t0 = t_id t \<and> assignedTo t = assignedTo t0" by blast
    with True x show ?thesis by (simp add: conflictsOf_def conflictMessage_def)
  next
    case False
    with x show ?thesis by (simp add: conflictsOf_def)
  qed
  from a b show ?thesis by blast
qed

theorem conflict_per_unstaffed_task_witness:
  "distinct (map t_id exUnstaffed) \<and>
   conflicts (projr (scheduleProject utc 100 exProject exUnstaffed [exUser ''U1'' [''Plumber'']] []))
     = [''Falta perfil: Electrician para tarea '' @ [CHR 0x22] @ ''T2'' @ [CHR 0x22]] \<and>
   map (\<lambda>t. (t_id t, assignedTo t))
     (optimizedTasks (projr (scheduleProject utc 100 exProject exUnstaffed [exUser ''U1'' [''Plumber'']] [])))
     = [(''T1'', None), (''T2'', Some ''U9''), (''T3'', Some ''U1'')]"
proof -
  let ?us = "[exUser ''U1'' [''Plumber'']]"
  have h: "distinct (map t_id exUnstaffed)" by (simp add: exUnstaffed_def exTask_def)
  have e: "scheduleProject utc 100 exProject exUnstaffed ?us []
     = Inr (projr (scheduleProject utc 100 exProject exUnstaffed ?us []))"
    by (simp add: schedule_eval exUnstaffed_def)
  have v: "map (\<lambda>t. (t_id t, assignedTo t))
     (optimizedTasks (projr (scheduleProject utc 100 exProject exUnstaffed ?us [])))
     = [(''T1'', None), (''T2'', Some ''U9''), (''T3'', Some ''U1'')]"
    by (simp add: schedule_eval exUnstaffed_def)
  have c: "concat (map (conflictsOf ?us)
      (optimizedTasks (projr (scheduleProject utc 100 exProject exUnstaffed ?us []))))
     = [''Falta perfil: Electrician para tarea '' @ [CHR 0x22] @ ''T2'' @ [CHR 0x22]]"
    by (simp add: schedule_eval exUnstaffed_def conflictsOf_def)
  from conflict_per_unstaffed_task[OF h e] c h v show ?thesis by simp
qed

subsection \<open>C5: the choice among the candidates\<close>

text \<open>
  C5, for the processing \<open>assignTask\<close> of the task behind a reference \<open>r\<close>, in any state
  in which every user has an availability entry (\<open>prepare_Inr\<close> and \<open>step_keeps_linked\<close>:
  so it is before and after every iteration). No user has the empty id, the task
  requires a non-empty specialty \<open>x\<close> and some user satisfies it, and the processing
  returns. Then the task is processed without a conflict string, the dependency floor
  \<open>fl\<close> was computed, and the assignee of the task afterwards is: its assignee before, if
  that is the id of a candidate whose next free date is at most the dependency floor;
  otherwise the id of the head of the candidates sorted by next free date, which is a
  candidate of least next free date and, among those, the first in the order of
  \<^verbatim>\<open>allUsers\<close>.
\<close>

theorem keeps_capable_or_takes_earliest:
  assumes "userIdsNonEmpty allUsers"
    and "u_id ` set allUsers \<subseteq> dom (userAvailability s)"
    and "r < length (heap s)"
    and "requiredSpecialty (heap s ! r) = Some x" and "x \<noteq> []"
    and "filter (satisfies x) allUsers \<noteq> []"
    and "assignTask z project allUsers s r = Inr s1"
  shows "conflictLog s1 = conflictLog s \<and>
     (\<exists>fl. earliestStart z s (p_startDate project) (dependencies (heap s ! r)) = Inr fl \<and>
     (let task = heap s ! r;
          candidates = filter (satisfies x) allUsers;
          nextFree = (\<lambda>u. the (userAvailability s (u_id u)));
          best = hd (sort_key nextFree candidates)
      in assignedTo (heap s1 ! r)
           = (if \<exists>a c. assignedTo task = Some a \<and> c \<in> set candidates \<and> u_id c = a \<and>
                        nextFree c \<le> fl
              then assignedTo task else Some (u_id best)) \<and>
         best \<in> set candidates \<and>
         (\<forall>c \<in> set candidates. nextFree best \<le> nextFree c) \<and>
         best = hd (filter (\<lambda>c. nextFree c = nextFree best) candidates)))"
proof -
  let ?task = "heap s ! r"
  let ?ua = "userAvailability s"
  let ?fl = "floorOf z s (p_startDate project) (dependencies ?task)"
  let ?cs = "filter (satisfies x) allUsers"
  let ?nf = "\<lambda>u. the (?ua (u_id u))"
  let ?sorted = "sort_key ?nf ?cs"
  let ?best = "hd ?sorted"
  let ?keep = "\<exists>a c. assignedTo ?task = Some a \<and> c \<in> set ?cs \<and> u_id c = a \<and> ?nf c \<le> ?fl"
  from assms(6) obtain c0 cs' where cs: "?cs = c0 # cs'" by (cases ?cs) auto
  have dom: "u_id ` set ?cs \<subseteq> dom ?ua" using assms(2) by auto
  have sc: "sortCandidates ?ua (c0 # cs') = Inr ?sorted"
    using sortCandidates_ok[OF dom] by (simp add: cs)
  have kc: "keepCurrent ?ua ?fl ?sorted (assignedTo ?task) = ?keep"
  proof (cases "assignedTo ?task")
    case None
    then show ?thesis by (simp add: keepCurrent_def)
  next
    case (Some a)
    have "(case ?ua a of None \<Rightarrow> False | Some avail \<Rightarrow> avail \<le> ?fl) = (the (?ua a) \<le> ?fl)"
      if "c \<in> set ?cs" "u_id c = a" for c
    proof -
      from that dom obtain v where "?ua a = Some v" by auto
      then show ?thesis by simp
    qed
    with Some show ?thesis by (auto simp: keepCurrent_def)
  qed
  let ?bu = "if ?keep then assignedTo ?task else Some (u_id ?best)"
  have "chooseUser allUsers ?ua ?fl ?task
      = (case sortCandidates ?ua (c0 # cs') of
           Inl e \<Rightarrow> Inl e
         | Inr candidates \<Rightarrow>
             if keepCurrent ?ua ?fl candidates (assignedTo ?task)
             then Inr (assignedTo ?task, [])
             else Inr (Some (u_id (hd candidates)), []))"
    using assms(4,5) by (simp add: chooseUser_def cs)
  also have "\<dots> = (if keepCurrent ?ua ?fl ?sorted (assignedTo ?task)
                   then Inr (assignedTo ?task, [])
                   else Inr (Some (u_id ?best), []))"
    by (simp only: sc sum.case)
  finally have ch0: "chooseUser allUsers ?ua ?fl ?task
      = (if ?keep then Inr (assignedTo ?task, []) else Inr (Some (u_id ?best), []))"
    by (simp only: kc)
  have ch: "chooseUser allUsers ?ua ?fl ?task = Inr (?bu, [])"
    by (cases ?keep) (simp_all only: ch0 if_True if_False)
  have best_in: "?best \<in> set ?cs" using hd_sort_key_in[OF assms(6)] .
  have tr: "\<exists>b. ?bu = Some b \<and> b \<noteq> []"
  proof (cases ?keep)
    case True
    then obtain a c where "assignedTo ?task = Some a" "c \<in> set allUsers" "u_id c = a" by auto
    with assms(1) True show ?thesis by (auto simp: userIdsNonEmpty_def)
  next
    case False
    from best_in have "?best \<in> set allUsers" by simp
    with assms(1) False show ?thesis by (auto simp: userIdsNonEmpty_def)
  qed
  then obtain b where b: "?bu = Some b" "b \<noteq> []" by blast
  from assignTask_Inr[OF assms(7)] obtain bu cs0 task' ua' where
    c0: "chooseUser allUsers ?ua ?fl ?task = Inr (bu, cs0)"
    and cm0: "commitOf z project ?ua ?fl bu ?task = (task', ua')"
    and s1: "s1 = s\<lparr>heap := (heap s)[r := task'], userAvailability := ua',
              optimizedRefs := optimizedRefs s @ [r], conflictLog := conflictLog s @ cs0\<rparr>"
    and fo: "floorOK z s (dependencies ?task)"
    by blast
  from c0 have bu: "bu = ?bu" "cs0 = []" unfolding ch by simp_all
  from cm0 have cm: "commitOf z project ?ua ?fl ?bu ?task = (task', ua')" unfolding bu .
  with b have at: "assignedTo task' = ?bu"
    by (auto simp: commitOf_def Let_def simp del: hd_in_set split: if_splits)
  have es: "earliestStart z s (p_startDate project) (dependencies ?task) = Inr ?fl"
    using fo by (simp add: earliestStart_eq)
  have "assignedTo (heap s1 ! r) = ?bu" using at assms(3) by (simp add: s1)
  moreover have "\<forall>c \<in> set ?cs. ?nf ?best \<le> ?nf c"
    using hd_sort_key_least[of _ ?cs ?nf] by blast
  moreover have "?best = hd (filter (\<lambda>c. ?nf c = ?nf ?best) ?cs)"
    by (rule hd_sort_key_first[OF assms(6)])
  moreover have "conflictLog s1 = conflictLog s" by (simp add: s1 bu)
  ultimately show ?thesis
    using best_in es by (intro conjI exI[of _ ?fl]) (simp_all add: Let_def)
qed

theorem keeps_capable_or_takes_earliest_witness:
  "userIdsNonEmpty exElectricians \<and>
   filter (satisfies ''E'') exElectricians = exElectricians \<and>
   assignedTo (heap (projr (assignTask utc exProject exElectricians exAssignState 0)) ! 0)
     = Some ''U2''"
proof -
  have h1: "userIdsNonEmpty exElectricians"
    by (simp add: userIdsNonEmpty_def exElectricians_def exUser_def)
  have h2: "u_id ` set exElectricians \<subseteq> dom (userAvailability exAssignState)"
    by (simp add: exElectricians_def exUser_def exAssignState_def)
  have h3: "0 < length (heap exAssignState)" by (simp add: exAssignState_def)
  have h4: "requiredSpecialty (heap exAssignState ! 0) = Some ''E''"
    by (simp add: exAssignState_def exTask_def)
  have h5: "''E'' \<noteq> []" by simp
  have f: "filter (satisfies ''E'') exElectricians = exElectricians"
    by (simp add: satisfies_def exElectricians_def exUser_def)
  then have h6: "filter (satisfies ''E'') exElectricians \<noteq> []"
    by (simp add: exElectricians_def)
  have h7: "assignTask utc exProject exElectricians exAssignState 0
             = Inr (projr (assignTask utc exProject exElectricians exAssignState 0))"
    by (simp add: assignTask_def chooseUser_def commitTask_def sortCandidates_def
        keepCurrent_def satisfies_def Let_def maxDate_def addDays_def msPerDay_def maxTime_def
        utc_def fixedZone_def exElectricians_def exUser_def exAssignState_def exTask_def
        exProject_def)
  let ?s1 = "projr (assignTask utc exProject exElectricians exAssignState 0)"
  from keeps_capable_or_takes_earliest[OF h1 h2 h3 h4 h5 h6 h7] obtain fl where
    fl: "earliestStart utc exAssignState (p_startDate exProject)
           (dependencies (heap exAssignState ! 0)) = Inr fl"
    and b: "assignedTo (heap ?s1 ! 0)
           = (if \<exists>a c. assignedTo (heap exAssignState ! 0) = Some a \<and>
                        c \<in> set (filter (satisfies ''E'') exElectricians) \<and> u_id c = a \<and>
                        the (userAvailability exAssignState (u_id c)) \<le> fl
              then assignedTo (heap exAssignState ! 0)
              else Some (u_id (hd (sort_key (\<lambda>u. the (userAvailability exAssignState (u_id u)))
                                     (filter (satisfies ''E'') exElectricians)))))"
    unfolding Let_def by blast
  from fl have "fl = 100" by (simp add: exAssignState_def exTask_def exProject_def)
  with b have "assignedTo (heap ?s1 ! 0) = Some ''U2''"
    unfolding f
    by (simp add: exElectricians_def exUser_def exAssignState_def exTask_def)
  with h1 f show ?thesis by simp
qed

subsection \<open>C2: no user is double-booked\<close>

text \<open>
  C2 at an input on which the code overlaps two tasks of one user. The host is in
  Europe/Madrid, the project starts on 2024-03-31 (day 19813), the day of the change to
  summer time, and user \<open>U1\<close> has two tasks of one day each. Line 152 computes the end of
  the first task with \<^verbatim>\<open>addDays\<close>, which reads the date as midnight UTC (line 15), adds
  the day in local time (line 16) and writes the UTC date back (line 17): 2024-03-31 plus
  one day is 2024-03-31 again. So the cursor of \<open>U1\<close> does not move and the second task
  starts on the day that the first task occupies. In UTC the second task starts on the
  next day.
\<close>

theorem double_booking_on_clock_change:
  "map_sum id (\<lambda>r. map (\<lambda>t. (t_id t, assignedTo t, startDate t, duration t)) (optimizedTasks r))
     (scheduleProject exMadrid 19813 exSpring
        [exTask ''T1'' [] 1 (Some ''U1'') None Media, exTask ''T2'' [] 1 (Some ''U1'') None Media]
        [exUser ''U1'' []] [])
   = Inr [(''T1'', Some ''U1'', 19813, 1), (''T2'', Some ''U1'', 19813, 1)] \<and>
   map_sum id (\<lambda>r. map (\<lambda>t. (t_id t, assignedTo t, startDate t, duration t)) (optimizedTasks r))
     (scheduleProject utc 19813 exSpring
        [exTask ''T1'' [] 1 (Some ''U1'') None Media, exTask ''T2'' [] 1 (Some ''U1'') None Media]
        [exUser ''U1'' []] [])
   = Inr [(''T1'', Some ''U1'', 19813, 1), (''T2'', Some ''U1'', 19814, 1)]"
  by (simp add: schedule_eval)

text \<open>
  On a host whose offset from UTC never changes, \<^verbatim>\<open>addDays\<close> adds the days (when it
  returns), and the tasks of a user are serialized. The task ids are pairwise different,
  no user has the empty id, and no task has a negative duration (in particular when every
  duration is at least one). Two tasks of the output assigned to the same user (a
  non-empty id: the empty string is the unassigned value of the forms and is falsy at
  line 146) are in the order of their scheduling: the later one starts no earlier than
  the start of the earlier one plus its duration. So two different output tasks of one
  user occupy disjoint inclusive intervals \<open>[startDate, startDate + duration - 1]\<close>.
\<close>

lemma serialized_on_fixed_offset:
  assumes "distinct (map t_id projectTasks)" and "userIdsNonEmpty allUsers"
    and "\<forall>t \<in> set projectTasks. 0 \<le> duration t"
    and "scheduleProject (fixedZone off) today project projectTasks allUsers existingGlobalTasks
           = Inr res"
  shows "\<forall>m1 m2 u. m1 < m2 \<and> m2 < length (optimizedTasks res) \<and> u \<noteq> [] \<and>
           assignedTo (optimizedTasks res ! m1) = Some u \<and>
           assignedTo (optimizedTasks res ! m2) = Some u \<longrightarrow>
           startDate (optimizedTasks res ! m1) + duration (optimizedTasks res ! m1)
             \<le> startDate (optimizedTasks res ! m2)"
proof (intro allI impI, elim conjE)
  fix m1 m2 u
  let ?z = "fixedZone off"
  let ?ts = projectTasks
  let ?h0 = "?ts @ existingGlobalTasks"
  let ?ua0 = "levelOf ?z project existingGlobalTasks (seedUsers today allUsers Map.empty)"
  let ?out = "optimizedTasks res"
  assume m: "m1 < m2" "m2 < length ?out" and u: "u \<noteq> []"
    and a: "assignedTo (?out ! m1) = Some u" "assignedTo (?out ! m2) = Some u"
  from assms(4) obtain s where
    r: "run ?z today project ?ts allUsers existingGlobalTasks = Inr s" and res: "res = resultOf s"
    by (auto simp: scheduleProject_def split: sum.splits)
  have out: "?out = outputOf s" by (simp add: res result_output)
  from run_kahn[OF assms(1) r] have f: "framed ?h0 ?ts s" by simp
  from run_booked[OF assms(1,2) r] have bk: "booked ?z project ?ua0 s" .
  have dur: "\<forall>t \<in> set ?out. startDate t \<le> endDay ?z (startDate t) (duration t)"
  proof
    fix t assume "t \<in> set ?out"
    from output_task[OF f this[unfolded res]] obtain i where "i < length ?ts"
      "sameStatics t (?ts ! i)" by blast
    with assms(3) show "startDate t \<le> endDay ?z (startDate t) (duration t)"
      by (simp add: sameStatics_def)
  qed
  have mono: "\<forall>m < length ?out. \<forall>u c. assignedTo (?out ! m) = Some u \<and> u \<noteq> [] \<and>
                 availabilityAfter ?z ?ua0 (take m ?out) u = Some c \<longrightarrow> c \<le> startDate (?out ! m)"
  proof (intro allI impI, elim conjE)
    fix m u c
    assume "m < length ?out" "assignedTo (?out ! m) = Some u" "u \<noteq> []"
      "availabilityAfter ?z ?ua0 (take m ?out) u = Some c"
    with bk startOf_ge_cursor[of u "availabilityAfter ?z ?ua0 (take m ?out)" c project]
    show "c \<le> startDate (?out ! m)"
      unfolding booked_def out by simp
  qed
  from m have "m2 \<le> length ?out" by simp
  from cursor_behind_bookings[OF dur mono m(1) this a(1) u] obtain c where
    c: "availabilityAfter ?z ?ua0 (take m2 ?out) u = Some c"
      "endDay ?z (startDate (?out ! m1)) (duration (?out ! m1)) \<le> c" by blast
  from mono m(2) a(2) u c(1) have "c \<le> startDate (?out ! m2)" by blast
  with c(2) show "startDate (?out ! m1) + duration (?out ! m1) \<le> startDate (?out ! m2)"
    by simp
qed

lemma serialized_on_fixed_offset_example:
  "distinct (map t_id exShared) \<and> userIdsNonEmpty exElectricians \<and>
   map (\<lambda>t. (t_id t, assignedTo t, startDate t, duration t))
     (optimizedTasks (projr (scheduleProject utc 100 exProject exShared exElectricians [])))
     = [(''T2'', Some ''U1'', 100, 3), (''T1'', Some ''U1'', 103, 2), (''T3'', Some ''U1'', 105, 1)]"
proof -
  have h1: "distinct (map t_id exShared)" by (simp add: exShared_def exTask_def)
  have h2: "userIdsNonEmpty exElectricians"
    by (simp add: userIdsNonEmpty_def exElectricians_def exUser_def)
  have h3: "\<forall>t \<in> set exShared. 0 \<le> duration t" by (simp add: exShared_def exTask_def)
  have e: "scheduleProject (fixedZone 0) 100 exProject exShared exElectricians []
     = Inr (projr (scheduleProject utc 100 exProject exShared exElectricians []))"
    by (simp add: schedule_eval exShared_def exElectricians_def)
  have v: "map (\<lambda>t. (t_id t, assignedTo t, startDate t, duration t))
     (optimizedTasks (projr (scheduleProject utc 100 exProject exShared exElectricians [])))
     = [(''T2'', Some ''U1'', 100, 3), (''T1'', Some ''U1'', 103, 2), (''T3'', Some ''U1'', 105, 1)]"
    by (simp add: schedule_eval exShared_def exElectricians_def)
  from serialized_on_fixed_offset[OF h1 h2 h3 e] h1 h2 v show ?thesis by simp
qed

subsection \<open>C10: an assignee outside the roster\<close>

text \<open>
  C10 at an input on which the code does not serialize two tasks of an id that is no id
  of \<^verbatim>\<open>allUsers\<close>. The host is in Europe/Madrid, the project starts on 2024-03-31 (day
  19813), the day of the change to summer time, and the id \<open>X9\<close> has a task of two days
  and a task of three days. The first task starts at its dependency floor, the start of
  the project, and occupies the days 19813 and 19814. Line 152 computes its end with
  \<^verbatim>\<open>addDays\<close>, which reads the date as midnight UTC (line 15), adds the days in local time
  (line 16) and writes the UTC date back (line 17): 2024-03-31 plus two days is
  2024-04-01, day 19814. That is the cursor kept under \<open>X9\<close>, and the second task starts
  on it, on the second day of the first task. In UTC the second task starts on day 19815.
  This is the defect of \<^verbatim>\<open>addDays\<close> that the section on C2 shows for a user of
  \<^verbatim>\<open>allUsers\<close>.
\<close>

theorem unknown_assignee_overlaps_on_clock_change:
  "map_sum id (\<lambda>r. map (\<lambda>t. (t_id t, assignedTo t, startDate t, duration t)) (optimizedTasks r))
     (scheduleProject exMadrid 19900 exSpring exUnknown exElectricians [])
   = Inr [(''T1'', Some ''X9'', 19813, 2), (''T2'', Some ''X9'', 19814, 3)] \<and>
   map_sum id (\<lambda>r. map (\<lambda>t. (t_id t, assignedTo t, startDate t, duration t)) (optimizedTasks r))
     (scheduleProject utc 19900 exSpring exUnknown exElectricians [])
   = Inr [(''T1'', Some ''X9'', 19813, 2), (''T2'', Some ''X9'', 19815, 3)]"
  by (simp add: schedule_eval exUnknown_def exElectricians_def)

text \<open>
  What the code does for such an id, in every time zone. The task ids are pairwise
  different and no user has the empty id. Take an output task whose assignee is a
  non-empty id that is no id of \<^verbatim>\<open>allUsers\<close> (with these hypotheses it is the assignee the
  task had in the input, kept because no candidate was looked for or found). If no task
  before it in the output has that assignee, it starts exactly at its dependency floor,
  whatever the current date: the missing availability entry is read as the start date of
  the project, which the floor is never below. If a task before it has that assignee, it
  starts at the later of its dependency floor and the end that \<^verbatim>\<open>addDays\<close> computed for
  the last such task: a cursor is kept under the id as under the id of a user. On a host
  whose offset from UTC never changes that end is \<open>startDate + duration\<close>.
\<close>

lemma unknown_assignee_cursor:
  assumes "distinct (map t_id projectTasks)" and "userIdsNonEmpty allUsers"
    and "scheduleProject z today project projectTasks allUsers existingGlobalTasks = Inr res"
    and "m < length (optimizedTasks res)"
    and "assignedTo (optimizedTasks res ! m) = Some u" and "u \<noteq> []"
    and "u \<notin> u_id ` set allUsers"
  shows "((\<forall>m' < m. assignedTo (optimizedTasks res ! m') \<noteq> Some u) \<longrightarrow>
            startDate (optimizedTasks res ! m)
              = dependencyFloor z project (optimizedTasks res) (optimizedTasks res ! m)) \<and>
         (\<forall>m' < m. assignedTo (optimizedTasks res ! m') = Some u \<and>
            (\<forall>m''. m' < m'' \<and> m'' < m \<longrightarrow> assignedTo (optimizedTasks res ! m'') \<noteq> Some u) \<longrightarrow>
            startDate (optimizedTasks res ! m)
              = maxDate (dependencyFloor z project (optimizedTasks res) (optimizedTasks res ! m))
                  (endDay z (startDate (optimizedTasks res ! m'))
                     (duration (optimizedTasks res ! m')))) \<and>
         (\<forall>off d n. z = fixedZone off \<longrightarrow> endDay z d n = d + n)"
proof -
  let ?ts = projectTasks
  let ?h0 = "?ts @ existingGlobalTasks"
  let ?ua0 = "levelOf z project existingGlobalTasks (seedUsers today allUsers Map.empty)"
  let ?out = "optimizedTasks res"
  from assms(3) obtain s where
    r: "run z today project ?ts allUsers existingGlobalTasks = Inr s" and res: "res = resultOf s"
    by (auto simp: scheduleProject_def split: sum.splits)
  have out: "?out = outputOf s" by (simp add: res result_output)
  from run_kahn[OF assms(1) r] have f: "framed ?h0 ?ts s" and kh: "kahn ?ts (length ?h0) s"
    by simp_all
  from run_booked[OF assms(1,2) r] have bk: "booked z project ?ua0 s" .
  let ?fl = "dependencyFloor z project ?out (?out ! m)"
  from assms(4) have m: "m < length (outputOf s)" by (simp add: out)
  have fl: "floorOf z s (p_startDate project) (dependencies (?out ! m)) = ?fl"
    unfolding out by (rule final_floor[OF assms(1) f kh m])
  have ge: "p_startDate project \<le> ?fl"
    using floorOf_ge_floor[of "p_startDate project" z s "dependencies (?out ! m)"] fl by simp
  from bk m assms(5,6) fl
  have st: "startDate (?out ! m)
      = maxDate ?fl (case availabilityAfter z ?ua0 (take m ?out) u of
                       None \<Rightarrow> p_startDate project | Some c \<Rightarrow> c)"
    unfolding booked_def out by (simp add: startOf_def)
  have first: "startDate (?out ! m) = ?fl" if "\<forall>m' < m. assignedTo (?out ! m') \<noteq> Some u"
  proof -
    have "\<forall>t \<in> set (take m ?out). assignedTo t \<noteq> Some u"
      using that assms(4) by (auto simp: in_set_conv_nth)
    from availabilityAfter_other[OF this]
    have "availabilityAfter z ?ua0 (take m ?out) u = None"
      by (simp add: initial_availability_unknown[OF assms(7)])
    with st ge show ?thesis by (simp add: maxDate_def)
  qed
  have later: "startDate (?out ! m)
      = maxDate ?fl (endDay z (startDate (?out ! m')) (duration (?out ! m')))"
    if m': "m' < m" "assignedTo (?out ! m') = Some u"
      "\<forall>m''. m' < m'' \<and> m'' < m \<longrightarrow> assignedTo (?out ! m'') \<noteq> Some u" for m'
  proof -
    from m' assms(4) have "m' < length (take m ?out)" by simp
    from id_take_nth_drop[OF this] m' assms(4)
    have sp: "take m ?out = take m' ?out @ (?out ! m') # drop (Suc m') (take m ?out)"
      by (simp add: min_def)
    have "\<forall>t \<in> set (drop (Suc m') (take m ?out)). assignedTo t \<noteq> Some u"
    proof
      fix t assume "t \<in> set (drop (Suc m') (take m ?out))"
      from drop_take_between[OF this] assms(4) m'(3) show "assignedTo t \<noteq> Some u" by auto
    qed
    from availabilityAfter_last[OF assms(6) m'(2) this, of z ?ua0 "take m' ?out"] sp
    have "availabilityAfter z ?ua0 (take m ?out) u
            = Some (endDay z (startDate (?out ! m')) (duration (?out ! m')))"
      by simp
    with st show ?thesis by simp
  qed
  have "\<forall>off d n. z = fixedZone off \<longrightarrow> endDay z d n = d + n" by simp
  with first later show ?thesis by blast
qed

lemma unknown_assignee_cursor_example:
  "distinct (map t_id exUnknown) \<and> userIdsNonEmpty exElectricians \<and>
   ''X9'' \<notin> u_id ` set exElectricians \<and>
   map (\<lambda>t. (t_id t, assignedTo t, startDate t, duration t))
     (optimizedTasks (projr (scheduleProject utc 500 exProject exUnknown exElectricians [])))
     = [(''T1'', Some ''X9'', 100, 2), (''T2'', Some ''X9'', 102, 3)] \<and>
   startDate (optimizedTasks (projr (scheduleProject utc 500 exProject exUnknown exElectricians [])) ! 0)
     = dependencyFloor utc exProject
         (optimizedTasks (projr (scheduleProject utc 500 exProject exUnknown exElectricians [])))
         (optimizedTasks (projr (scheduleProject utc 500 exProject exUnknown exElectricians [])) ! 0)"
proof -
  let ?res = "projr (scheduleProject utc 500 exProject exUnknown exElectricians [])"
  have h1: "distinct (map t_id exUnknown)" by (simp add: exUnknown_def exTask_def)
  have h2: "userIdsNonEmpty exElectricians"
    by (simp add: userIdsNonEmpty_def exElectricians_def exUser_def)
  have e: "scheduleProject utc 500 exProject exUnknown exElectricians [] = Inr ?res"
    by (simp add: schedule_eval exUnknown_def exElectricians_def)
  have v: "map (\<lambda>t. (t_id t, assignedTo t, startDate t, duration t)) (optimizedTasks ?res)
     = [(''T1'', Some ''X9'', 100, 2), (''T2'', Some ''X9'', 102, 3)]"
    by (simp add: schedule_eval exUnknown_def exElectricians_def)
  have h4: "0 < length (optimizedTasks ?res)"
    by (simp add: schedule_eval exUnknown_def exElectricians_def)
  have h5: "assignedTo (optimizedTasks ?res ! 0) = Some ''X9''"
    by (simp add: schedule_eval exUnknown_def exElectricians_def)
  have h6: "''X9'' \<noteq> []" by simp
  have h7: "''X9'' \<notin> u_id ` set exElectricians"
    by (simp add: exElectricians_def exUser_def)
  from unknown_assignee_cursor[OF h1 h2 e h4 h5 h6 h7]
  have "startDate (optimizedTasks ?res ! 0)
     = dependencyFloor utc exProject (optimizedTasks ?res) (optimizedTasks ?res ! 0)"
    by simp
  with h1 h2 h7 v show ?thesis by simp
qed

subsection \<open>C8: running again on the output\<close>

text \<open>
  C8. A second run on the output of a first run, with the same project, the same
  \<^verbatim>\<open>allUsers\<close>, the same tasks of the other projects and the same current date, returns
  what the first run returned: the same tasks in the same order, each with the same
  \<^verbatim>\<open>startDate\<close> and \<^verbatim>\<open>assignedTo\<close>, and the same conflicts. The schedule is a fixed point.
  The task ids of the first input are pairwise different, as the ids of the data model
  are.
\<close>

theorem rerun_is_fixed_point:
  assumes dist: "distinct (map t_id projectTasks)"
    and r: "scheduleProject z today project projectTasks allUsers existingGlobalTasks = Inr r"
  shows "scheduleProject z today project (optimizedTasks r) allUsers existingGlobalTasks = Inr r"
proof -
  let ?ts = projectTasks and ?os = existingGlobalTasks
  from r obtain sF where run1: "run z today project ?ts allUsers ?os = Inr sF"
    and rF: "r = resultOf sF"
    by (auto simp: scheduleProject_def split: sum.splits)
  let ?P = "outputOf sF"
  have P: "optimizedTasks r = ?P" by (simp add: rF result_output)
  from run1 obtain s1 where p1: "prepare z today project ?ts allUsers ?os = Inr s1"
    and l1: "loop z project allUsers s1 = Inr sF"
    by (auto simp: run_def split: sum.splits)
  from steady_prepare[OF dist p1] have s1: "steady allUsers (?ts @ ?os) ?ts s1" .
  from steady_loop[OF dist s1 l1] have sF: "steady allUsers (?ts @ ?os) ?ts sF" by simp
  then have "framed (?ts @ ?os) ?ts sF" "kahn ?ts (length (?ts @ ?os)) sF"
    by (simp_all add: steady_def)
  then have rs: "restates ?ts ?P" by (rule output_restates)
  then have distP: "distinct (map t_id ?P)" by (simp add: restates_def)
  from prepare_linked[OF prepare_Inr(1)[OF p1], of ?P] obtain s2 where
    p2: "prepare z today project ?P allUsers ?os = Inr s2" by blast
  from steady_prepare[OF distP p2] have s2: "steady allUsers (?P @ ?os) ?P s2" .
  have oe: "outputOf s2 = outputOf s1"
    using prepare_shape(2)[OF p1] prepare_shape(2)[OF p2] by (simp add: outputOf_def)
  have ue: "userAvailability s2 = userAvailability s1"
    using prepare_shape(4)[OF p1] prepare_shape(4)[OF p2] by simp
  have qe: "queue s2 = queue s1"
  proof -
    let ?r1 = "map t_id (filter (\<lambda>t. pending ?ts {} t = 0) ?ts)"
    let ?r2 = "map t_id (filter (\<lambda>t. pending ?P {} t = 0) ?P)"
    have dF: "doneIds sF = map t_id ?P" by (rule doneIds_output)
    from queue_follows_output[OF dist s1 l1] have al: "alongside (doneIds sF) (queue s1)"
      by simp
    have s1q: "set (queue s1) = set ?r1" by (simp add: prepare_queue[OF dist p1])
    with alongside_subset[OF al] have "set ?r1 \<subseteq> t_id ` set ?P" by (simp add: dF)
    with restates_roots[OF dist rs] have "set ?r2 = set ?r1" by auto
    moreover have "alongside (doneIds sF) ?r2"
      unfolding dF by (rule alongside_map_filter[OF distP])
    ultimately have r2: "?r2 = queue s1"
      using al s1q by (intro alongside_eq[of "doneIds sF"]) simp_all
    have "queue s2 = sort_key (idKey ?P) (queue s1)"
      by (simp add: prepare_queue[OF distP p2] r2)
    also have "\<dots> = sort_key (idKey ?ts) (queue s1)"
    proof (rule sort_key_cong_set)
      fix x assume "x \<in> set (queue s1)"
      with alongside_subset[OF al] have "x \<in> t_id ` set ?P" by (auto simp: dF)
      then show "idKey ?P x = idKey ?ts x" by (rule restates_key[OF dist rs])
    qed
    also have "\<dots> = queue s1"
      using s1 by (intro sort_key_id_if_sorted) (simp add: steady_def)
    finally show ?thesis .
  qed
  from rerun_loop[OF dist s1 l1 s2 qe oe ue] obtain sF2 where
    l2: "loop z project allUsers s2 = Inr sF2" and o2: "outputOf sF2 = ?P"
    and sF2: "steady allUsers (?P @ ?os) ?P sF2"
    by blast
  from sF sF2 have "conflictLog sF2 = conflictLog sF"
    by (simp add: steady_def settled_def o2)
  with o2 have "resultOf sF2 = r"
    by (simp add: rF resultOf_def outputOf_def)
  with p2 l2 show ?thesis
    by (simp add: P scheduleProject_def run_def)
qed

theorem rerun_is_fixed_point_witness:
  "distinct (map t_id exRerun) \<and>
   scheduleProject utc 100 exProject
     (optimizedTasks (projr (scheduleProject utc 100 exProject exRerun exElectricians [])))
     exElectricians []
     = Inr (projr (scheduleProject utc 100 exProject exRerun exElectricians [])) \<and>
   map (\<lambda>t. (t_id t, assignedTo t, startDate t))
     (optimizedTasks (projr (scheduleProject utc 100 exProject exRerun exElectricians [])))
     = [(''T1'', Some ''U1'', 100), (''T2'', Some ''U2'', 102), (''T3'', Some ''U3'', 100)]"
proof -
  have h1: "distinct (map t_id exRerun)" by (simp add: exRerun_def exTask_def)
  have e: "scheduleProject utc 100 exProject exRerun exElectricians []
     = Inr (projr (scheduleProject utc 100 exProject exRerun exElectricians []))"
    by (simp add: schedule_eval exRerun_def exElectricians_def)
  have v: "map (\<lambda>t. (t_id t, assignedTo t, startDate t))
     (optimizedTasks (projr (scheduleProject utc 100 exProject exRerun exElectricians [])))
     = [(''T1'', Some ''U1'', 100), (''T2'', Some ''U2'', 102), (''T3'', Some ''U3'', 100)]"
    by (simp add: schedule_eval exRerun_def exElectricians_def)
  from rerun_is_fixed_point[OF h1 e] h1 v show ?thesis by simp
qed

end
